theory Spec2Isabelle
  imports Complex_Main "HOL-Library.Multiset" "HOL-Library.Log_Nat"
begin

section \<open>Data model of \<open>OSMRouteRelation.ts\<close>\<close>

text \<open>
  The class \<open>OSMRouteRelation\<close> reads an immutable list of relation members and
  derives everything else from it through memoised getters. A getter that caches
  its first result is a function of the member list, so each getter is modelled
  as a function of the route; an exception is a value \<open>Inl e\<close> of a sum type.
\<close>

text \<open>
  The two error classes of the file, and the \<open>TypeError\<close> JavaScript raises when a
  property of \<open>undefined\<close> is read (its text is the engine's and is left open).
\<close>

datatype error =
    RouteTopologyError (errNodes: "string list") (message: string)
  | SuperRouteTopologyError (errors: "error list") (message: string)
  | TypeError

text \<open>A GeoJSON LineString feature: a property bag and a coordinate sequence.\<close>

record feature =
  properties :: "string \<rightharpoonup> string"
  coordinates :: "rat list list"

text \<open>
  The element of a member (\<open>WayLikeMember\<close>). Its getters \<open>endNodes\<close> and
  \<open>lineStringFeature\<close> belong to classes outside this file, so their results
  are fields; \<open>endNodes\<close> may throw. A member without the key \<open>element\<close> has
  \<open>None\<close>. The fields \<open>id\<close>, \<open>type\<close>, \<open>element\<close> and \<open>properties\<close> carry a prefix
  where the name is taken.
\<close>

record element =
  el_id :: string
  el_endNodes :: "error + (string \<times> string)"
  el_lineStringFeature :: feature

record member =
  mtype :: string
  role :: string
  melement :: "element option"

record route =
  rid :: string
  tags :: "string \<rightharpoonup> string"
  rproperties :: "string \<rightharpoonup> string"
  members :: "member list"

text \<open>
  \<open>RouteGraph = Map<string, Map<string, string>>\<close>. A JavaScript \<open>Map\<close> iterates in
  insertion order, and the code depends on that order, so a map is an association
  list with distinct keys; \<open>set\<close> on a present key keeps the key's position.
\<close>

type_synonym 'v jsmap = "(string \<times> 'v) list"
type_synonym routeGraph = "(string jsmap) jsmap"

fun map_set :: "string \<Rightarrow> 'v \<Rightarrow> 'v jsmap \<Rightarrow> 'v jsmap" where
  "map_set k v [] = [(k, v)]"
| "map_set k v ((k', v') # m) = (if k' = k then (k, v) # m else (k', v') # map_set k v m)"

definition map_get :: "'v jsmap \<Rightarrow> string \<Rightarrow> 'v option" where
  "map_get m k = map_of m k"

definition map_keys :: "'v jsmap \<Rightarrow> string list" where
  "map_keys m = map fst m"

text \<open>JavaScript's \<open>xs[i]\<close>: \<open>undefined\<close> (here \<open>None\<close>) out of range.\<close>

fun js_nth :: "'a list \<Rightarrow> nat \<Rightarrow> 'a option" where
  "js_nth [] i = None"
| "js_nth (x # xs) 0 = Some x"
| "js_nth (x # xs) (Suc i) = js_nth xs i"

text \<open>\<open>Array.prototype.join\<close>, and a natural number in a template string.\<close>

fun join :: "string \<Rightarrow> string list \<Rightarrow> string" where
  "join sep [] = []"
| "join sep [x] = x"
| "join sep (x # y # xs) = x @ sep @ join sep (y # xs)"

function string_of_nat :: "nat \<Rightarrow> string" where
  "string_of_nat n =
     (if n < 10 then [''0123456789'' ! n]
      else string_of_nat (n div 10) @ [''0123456789'' ! (n mod 10)])"
  by pat_completeness auto
termination
  by (relation "measure id") auto

declare string_of_nat.simps [simp del]

section \<open>Graph builder\<close>

text \<open>One pass of the inner loop over \<open>endPairs\<close>: insert \<open>a \<rightarrow> b\<close> with reference \<open>r\<close>.\<close>

definition insertEndPair :: "routeGraph \<Rightarrow> string \<times> string \<times> string \<Rightarrow> routeGraph" where
  "insertEndPair g p =
     (case p of (a, b, r) \<Rightarrow>
        (case map_get g a of
           None \<Rightarrow> map_set a [(b, r)] g
         | Some nb \<Rightarrow> map_set a (map_set b r nb) g))"

text \<open>
  The body of the loop over the members, with its \<open>try\<close>/\<open>catch\<close>: the state is
  the graph and the list of collected errors. \<open>endNodes\<close> is read before anything
  is inserted, so a failing member leaves the graph as it was.
\<close>

definition buildStep :: "routeGraph \<times> error list \<Rightarrow> member \<Rightarrow> routeGraph \<times> error list" where
  "buildStep st m =
     (case st of (g, errs) \<Rightarrow>
        if mtype m = ''node'' then (g, errs)
        else (case melement m of
                None \<Rightarrow> (g, errs @ [TypeError])
              | Some el \<Rightarrow>
                  (case el_endNodes el of
                     Inl e \<Rightarrow> (g, errs @ [e])
                   | Inr (a, b) \<Rightarrow>
                       (insertEndPair (insertEndPair g (a, b, el_id el))
                          (b, a, ''-'' @ el_id el), errs))))"

text \<open>\<open>route.tags["name"]\<close> in a template string: a missing tag prints as \<open>undefined\<close>.\<close>

definition tagName :: "route \<Rightarrow> string" where
  "tagName r = (case tags r ''name'' of None \<Rightarrow> ''undefined'' | Some n \<Rightarrow> n)"

text \<open>The sub-messages are re-indented: two spaces follow every line feed.\<close>

fun indentLines :: "string \<Rightarrow> string" where
  "indentLines [] = []"
| "indentLines (c # cs) =
     (if c = CHR 0x0A then [CHR 0x0A, CHR '' '', CHR '' ''] else [c]) @ indentLines cs"

definition superRouteTopologyError :: "route \<Rightarrow> error list \<Rightarrow> error" where
  "superRouteTopologyError r errs =
     SuperRouteTopologyError errs
       (join [CHR 0x0A, CHR '' '', CHR '' '']
          ((rid r @ '' ('' @ tagName r @ '') is not routable'') #
           map (\<lambda>err. indentLines (message err)) errs))"

text \<open>\<open>_buildRouteGraph\<close>: the loop, then the composite error when anything was collected.\<close>

definition buildRouteGraph :: "route \<Rightarrow> member list \<Rightarrow> error + routeGraph" where
  "buildRouteGraph r ms =
     (case foldl buildStep ([], []) ms of (g, errs) \<Rightarrow>
        if length errs > 0 then Inl (superRouteTopologyError r errs) else Inr g)"

text \<open>The getters \<open>children\<close> and \<open>routeGraph\<close>.\<close>

definition children :: "route \<Rightarrow> member list" where
  "children r = filter (\<lambda>m. mtype m = ''way'' \<and> melement m \<noteq> None) (members r)"

definition routeGraph :: "route \<Rightarrow> error + routeGraph" where
  "routeGraph r = buildRouteGraph r (filter (\<lambda>m. role m \<noteq> ''alternative'') (children r))"

section \<open>Degree classifier and routability\<close>

text \<open>
  \<open>nodeDegrees\<close>: four bins, for the degrees 0, 1, 2 and 3 or more; \<open>forEach\<close> pushes the
  nodes in iteration order. \<open>nodeDegreesOf\<close> is the loop, \<open>nodeDegrees\<close> the getter, which
  reads \<open>routeGraph\<close> and so may throw.
\<close>

definition nodeDegreesOf :: "routeGraph \<Rightarrow> string list list" where
  "nodeDegreesOf g =
     foldl (\<lambda>bins (endId, edgesIds).
              bins[min (length edgesIds) 3 := bins ! (min (length edgesIds) 3) @ [endId]])
       [[], [], [], []] g"

definition nodeDegrees :: "route \<Rightarrow> error + string list list" where
  "nodeDegrees r = (case routeGraph r of Inl e \<Rightarrow> Inl e | Inr g \<Rightarrow> Inr (nodeDegreesOf g))"

definition isRoutable :: "route \<Rightarrow> bool" where
  "isRoutable r =
     (case nodeDegrees r of
        Inl e \<Rightarrow> False
      | Inr nd \<Rightarrow>
          (let hasNo3PlusDegreeNodes = (length (nd ! 3) = 0);
               isRoundTrip = (length (nd ! 1) < 2);
               isOneWay = (length (nd ! 1) = 2)
           in hasNo3PlusDegreeNodes \<and> (isRoundTrip \<or> isOneWay)))"

text \<open>The constructor of \<open>RouteTopologyError\<close>; reading \<open>route.nodeDegrees\<close> may throw.\<close>

definition routeTopologyError :: "route \<Rightarrow> error" where
  "routeTopologyError r =
     (case nodeDegrees r of
        Inl e \<Rightarrow> e
      | Inr nd \<Rightarrow>
          (let (errNodes1, err1) =
                 (if length (nd ! 3) > 0
                  then (nd ! 3, [string_of_nat (length (nd ! 3)) @ '' node > 2deg''])
                  else ([], []));
               (errNodes2, err2) =
                 (if length (nd ! 1) > 2
                  then (errNodes1 @ nd ! 1, err1 @ [string_of_nat (length (nd ! 1)) @ '' dead end''])
                  else (errNodes1, err1))
           in RouteTopologyError errNodes2
                (rid r @ '' ('' @ tagName r @ '') is not routable: '' @ join '','' err2)))"

definition endNodes :: "route \<Rightarrow> error + (string option \<times> string option)" where
  "endNodes r =
     (if isRoutable r then
        (case nodeDegrees r of
           Inl e \<Rightarrow> Inl e
         | Inr nd \<Rightarrow>
             Inr (if length (nd ! 1) = 0
                  then (js_nth (nd ! 2) 0, js_nth (nd ! 2) 0)
                  else (js_nth (nd ! 1) 0, js_nth (nd ! 1) 1)))
      else Inl (routeTopologyError r))"

section \<open>Path orderer\<close>

text \<open>
  \<open>_getNextNode\<close>: the first neighbour of \<open>currId\<close> whose id differs from \<open>lastId\<close>,
  \<open>undefined\<close> when there is none; a \<open>TypeError\<close> when \<open>currId\<close> is no key of the graph.
\<close>

definition getNextNode :: "routeGraph \<Rightarrow> string \<Rightarrow> string \<Rightarrow> error + string option" where
  "getNextNode g currId lastId =
     (case map_get g currId of
        None \<Rightarrow> Inl TypeError
      | Some nb \<Rightarrow> Inr (js_nth (filter (\<lambda>k. k \<noteq> lastId) (map_keys nb)) 0))"

text \<open>
  The \<open>while\<close> loop. It need not end on every graph, so the result is an option:
  \<open>None\<close> is the loop that runs forever. \<open>get(nextId)\<close> cannot be \<open>undefined\<close>,
  since \<open>nextId\<close> was read from the keys of that very map; the branch is there
  to keep the lookup total.
\<close>

partial_function (option) walk ::
  "routeGraph \<Rightarrow> string \<Rightarrow> string \<Rightarrow> string option \<Rightarrow> string \<Rightarrow> string list
     \<Rightarrow> (error + string list) option" where
  "walk g lastId currId nextId endId orderedChildren =
     (case nextId of
        None \<Rightarrow> Some (Inr orderedChildren)
      | Some nxt \<Rightarrow>
          (case map_get g currId of
             None \<Rightarrow> Some (Inl TypeError)
           | Some nb \<Rightarrow>
               (case map_get nb nxt of
                  None \<Rightarrow> Some (Inl TypeError)
                | Some nextMemberId \<Rightarrow>
                    (case getNextNode g nxt currId of
                       Inl e \<Rightarrow> Some (Inl e)
                     | Inr nextId' \<Rightarrow>
                         if nxt = endId \<and> currId \<noteq> ''-1''
                         then Some (Inr (orderedChildren @ [nextMemberId]))
                         else walk g currId nxt nextId' endId
                                (orderedChildren @ [nextMemberId])))))"

declare walk.simps [code]

text \<open>
  The scan for the first node of degree one, and the body of \<open>orderedChildIds\<close> after
  the check of routability: the case of a single entry, the choice of the start
  (the variables start as \<open>"-1"\<close>; the round trip is taken when \<open>currId\<close> still is), the
  walk.
\<close>

definition firstDegreeOne :: "routeGraph \<Rightarrow> string option" where
  "firstDegreeOne g = js_nth (map fst (filter (\<lambda>(nodeId, neighborIds). length neighborIds = 1) g)) 0"

definition orderedChildIdsOf :: "routeGraph \<Rightarrow> (error + string list) option" where
  "orderedChildIdsOf g =
     (if length g = 1 then
        (case g of
           (n, (k, v) # nb) # g' \<Rightarrow> Some (Inr [v])
         | _ \<Rightarrow> Some (Inl TypeError))
      else
        (case (case firstDegreeOne g of
                 None \<Rightarrow> Inr (''-1'', Some ''-1'')
               | Some nodeId \<Rightarrow>
                   (case getNextNode g nodeId ''-1'' of
                      Inl e \<Rightarrow> Inl e
                    | Inr nextId \<Rightarrow> Inr (nodeId, nextId))) of
           Inl e \<Rightarrow> Some (Inl e)
         | Inr (currId, nextId) \<Rightarrow>
             if currId = ''-1'' then
               (case g of
                  (n, (k, v) # nb) # g' \<Rightarrow> walk g ''-1'' n (Some k) n []
                | _ \<Rightarrow> Some (Inl TypeError))
             else walk g ''-1'' currId nextId ''-1'' []))"

definition orderedChildIds :: "route \<Rightarrow> (error + string list) option" where
  "orderedChildIds r =
     (if \<not> isRoutable r then Some (Inl (routeTopologyError r))
      else (case routeGraph r of
              Inl e \<Rightarrow> Some (Inl e)
            | Inr g \<Rightarrow> orderedChildIdsOf g))"

section \<open>Geometry assembly\<close>

text \<open>
  Modelled from the spec: \<open>_isReversed\<close> is imported from \<open>./utils\<close>, which is not among
  the sources. The spec calls a segment reference "the segment's own identifier,
  optionally prefixed to mark traverse in reverse direction"; the prefix the
  graph builder writes is \<open>-\<close>.
\<close>

definition isReversed :: "string \<Rightarrow> bool" where
  "isReversed childId = (take 1 childId = ''-'')"

text \<open>
  Modelled from the spec: \<open>_absoluteId\<close>, of \<open>./utils\<close> as well, is the segment's own
  identifier: the reference without the prefix.
\<close>

definition absoluteId :: "string \<Rightarrow> string" where
  "absoluteId childId = (if isReversed childId then drop 1 childId else childId)"

text \<open>
  Modelled from the spec: \<open>reverseLineFeature\<close>, of \<open>./utils\<close> as well, is the feature
  traversed in reverse direction: the same properties, the coordinates reversed.
\<close>

definition reverseLineFeature :: "feature \<Rightarrow> feature" where
  "reverseLineFeature f = f\<lparr>coordinates := rev (coordinates f)\<rparr>"

text \<open>
  \<open>new Map(entries)\<close>: a later entry with the same key replaces the value. \<open>childrenMap\<close>
  is the map from the identifier of each child's element to the child.
\<close>

definition map_from_entries :: "(string \<times> 'v) list \<Rightarrow> 'v jsmap" where
  "map_from_entries es = foldl (\<lambda>m (k, v). map_set k v m) [] es"

definition childrenMap :: "route \<Rightarrow> member jsmap" where
  "childrenMap r =
     map_from_entries
       (map (\<lambda>child. (case melement child of None \<Rightarrow> [] | Some el \<Rightarrow> el_id el, child))
          (children r))"

text \<open>The body of the \<open>map\<close> over \<open>orderedChildIds\<close>; a missing child is a \<open>TypeError\<close>.\<close>

definition childFeature :: "member jsmap \<Rightarrow> string \<Rightarrow> error + feature" where
  "childFeature cm childId =
     (case map_get cm (if isReversed childId then absoluteId childId else childId) of
        None \<Rightarrow> Inl TypeError
      | Some child \<Rightarrow>
          (case melement child of
             None \<Rightarrow> Inl TypeError
           | Some el \<Rightarrow>
               Inr (if isReversed childId
                    then reverseLineFeature (el_lineStringFeature el)
                    else el_lineStringFeature el)))"

text \<open>\<open>Array.prototype.map\<close> with a callback that may throw: the first exception ends it.\<close>

fun mapResult :: "('a \<Rightarrow> error + 'b) \<Rightarrow> 'a list \<Rightarrow> error + 'b list" where
  "mapResult f [] = Inr []"
| "mapResult f (x # xs) =
     (case f x of
        Inl e \<Rightarrow> Inl e
      | Inr y \<Rightarrow> (case mapResult f xs of Inl e \<Rightarrow> Inl e | Inr ys \<Rightarrow> Inr (y # ys)))"

text \<open>
  The getters \<open>orderedFeatureCollection\<close> (its \<open>features\<close>), \<open>featureCollection\<close> (its
  \<open>features\<close>; every child has an element) and \<open>lineStringFeature\<close>: \<open>shift()\<close> takes the
  first feature, \<open>slice(1)\<close> drops the first coordinate of each other one.
\<close>

definition orderedFeatureCollection :: "route \<Rightarrow> (error + feature list) option" where
  "orderedFeatureCollection r =
     (if \<not> isRoutable r then Some (Inl (routeTopologyError r))
      else (case orderedChildIds r of
              None \<Rightarrow> None
            | Some (Inl e) \<Rightarrow> Some (Inl e)
            | Some (Inr ids) \<Rightarrow> Some (mapResult (childFeature (childrenMap r)) ids)))"

definition featureCollection :: "route \<Rightarrow> feature list" where
  "featureCollection r =
     concat (map (\<lambda>child. case melement child of None \<Rightarrow> [] | Some el \<Rightarrow> [el_lineStringFeature el])
       (filter (\<lambda>child. role child \<noteq> ''alternative'') (children r)))"

definition lineStringFeature :: "route \<Rightarrow> (error + feature) option" where
  "lineStringFeature r =
     (case orderedFeatureCollection r of
        None \<Rightarrow> None
      | Some (Inl e) \<Rightarrow> Some (Inl e)
      | Some (Inr []) \<Rightarrow> Some (Inl TypeError)
      | Some (Inr (first # others)) \<Rightarrow>
          (let firstCoordinates = coordinates first;
               otherCoordinates = map (\<lambda>feat. drop 1 (coordinates feat)) others
           in Some (Inr \<lparr> properties = rproperties r,
                         coordinates = firstCoordinates @ concat otherCoordinates \<rparr>)))"

section \<open>Statistics aggregator\<close>

subsection \<open>Numbers\<close>

text \<open>
  A JavaScript number is an IEEE 754 double: a finite value, written as the rational
  it denotes, an infinity, or \<open>NaN\<close>. The sign of a zero is not kept: \<open>statistics\<close> never
  divides a number other than zero by zero, so the two zeros cannot be told apart.
\<close>

datatype jsnum = Num rat | PosInf | NegInf | NaN

text \<open>
  \<open>toDouble\<close> is the rounding that every arithmetic operation on doubles ends with:
  the nearest double, a tie going to the even significand of 53 bits, with gradual
  underflow below 2 to the power -1022 and an infinity from 2 to the power 1024 on.
  \<open>pow2 k\<close> is 2 to the power \<open>k\<close>, and \<open>expo q\<close> is the binary exponent of \<open>q\<close>, the
  integer part of its logarithm to base 2.
\<close>

definition pow2 :: "int \<Rightarrow> rat" where
  "pow2 k = (if 0 \<le> k then 2 ^ nat k else 1 / 2 ^ nat (- k))"

definition expo :: "rat \<Rightarrow> int" where
  "expo q =
     (let a = \<bar>q\<bar> in
      if 1 \<le> a then bitlen \<lfloor>a\<rfloor> - 1
      else (let p = 1 / a; k = bitlen \<lfloor>p\<rfloor> - 1 in if p = pow2 k then - k else - k - 1))"

definition roundHalfEven :: "rat \<Rightarrow> int" where
  "roundHalfEven x =
     (let f = \<lfloor>x\<rfloor>; d = x - of_int f in
      if d < 1 / 2 then f else if 1 / 2 < d then f + 1 else if even f then f else f + 1)"

definition toDouble :: "rat \<Rightarrow> jsnum" where
  "toDouble q =
     (if q = 0 then Num 0
      else (let ulp = pow2 (max (expo q) (- 1022) - 52);
                r = of_int (roundHalfEven (q / ulp)) * ulp
            in if pow2 1024 \<le> r then PosInf else if r \<le> - pow2 1024 then NegInf else Num r))"

text \<open>
  The operations on doubles: the exact result, rounded. \<open>dbl\<close> reads a number as a
  double, which leaves a double as it is; \<open>sign_dbl\<close> is the sign, \<open>inf_of_sign\<close> the
  infinity of a sign (\<open>NaN\<close> for none), \<open>round_dbl\<close> is \<open>Math.round\<close>, which rounds a
  half upwards.
\<close>

definition dbl :: "jsnum \<Rightarrow> jsnum" where
  "dbl x = (case x of Num q \<Rightarrow> toDouble q | _ \<Rightarrow> x)"

fun sign_dbl :: "jsnum \<Rightarrow> int" where
  "sign_dbl (Num a) = (if a < 0 then - 1 else if a = 0 then 0 else 1)"
| "sign_dbl PosInf = 1"
| "sign_dbl NegInf = - 1"
| "sign_dbl NaN = 0"

definition inf_of_sign :: "int \<Rightarrow> jsnum" where
  "inf_of_sign s = (if s = 0 then NaN else if 0 < s then PosInf else NegInf)"

fun neg_dbl :: "jsnum \<Rightarrow> jsnum" where
  "neg_dbl (Num a) = Num (- a)"
| "neg_dbl PosInf = NegInf"
| "neg_dbl NegInf = PosInf"
| "neg_dbl NaN = NaN"

fun add_dbl :: "jsnum \<Rightarrow> jsnum \<Rightarrow> jsnum" where
  "add_dbl (Num a) (Num b) = toDouble (a + b)"
| "add_dbl NaN y = NaN"
| "add_dbl x NaN = NaN"
| "add_dbl PosInf NegInf = NaN"
| "add_dbl NegInf PosInf = NaN"
| "add_dbl PosInf y = PosInf"
| "add_dbl x PosInf = PosInf"
| "add_dbl NegInf y = NegInf"
| "add_dbl x NegInf = NegInf"

fun mul_dbl :: "jsnum \<Rightarrow> jsnum \<Rightarrow> jsnum" where
  "mul_dbl (Num a) (Num b) = toDouble (a * b)"
| "mul_dbl NaN y = NaN"
| "mul_dbl x NaN = NaN"
| "mul_dbl x y = inf_of_sign (sign_dbl x * sign_dbl y)"

fun div_dbl :: "jsnum \<Rightarrow> jsnum \<Rightarrow> jsnum" where
  "div_dbl (Num a) (Num b) = (if b = 0 then inf_of_sign (sign_dbl (Num a)) else toDouble (a / b))"
| "div_dbl NaN y = NaN"
| "div_dbl x NaN = NaN"
| "div_dbl (Num a) y = Num 0"
| "div_dbl x (Num b) = inf_of_sign (sign_dbl x * (if b < 0 then - 1 else 1))"
| "div_dbl x y = NaN"

fun less_dbl :: "jsnum \<Rightarrow> jsnum \<Rightarrow> bool" where
  "less_dbl (Num a) (Num b) = (a < b)"
| "less_dbl NaN y = False"
| "less_dbl x NaN = False"
| "less_dbl x y = ((x = NegInf \<and> y \<noteq> NegInf) \<or> (y = PosInf \<and> x \<noteq> PosInf))"

fun round_dbl :: "jsnum \<Rightarrow> jsnum" where
  "round_dbl (Num a) = Num (of_int \<lfloor>a + 1 / 2\<rfloor>)"
| "round_dbl x = x"

text \<open>JavaScript's \<open>x + y\<close>, \<open>x - y\<close>, \<open>x * y\<close>, \<open>x / y\<close>, \<open>x < y\<close> and \<open>Math.round(x)\<close> on numbers.\<close>

definition jadd :: "jsnum \<Rightarrow> jsnum \<Rightarrow> jsnum" where
  "jadd x y = add_dbl (dbl x) (dbl y)"

definition jsub :: "jsnum \<Rightarrow> jsnum \<Rightarrow> jsnum" where
  "jsub x y = add_dbl (dbl x) (neg_dbl (dbl y))"

definition jmul :: "jsnum \<Rightarrow> jsnum \<Rightarrow> jsnum" where
  "jmul x y = mul_dbl (dbl x) (dbl y)"

definition jdiv :: "jsnum \<Rightarrow> jsnum \<Rightarrow> jsnum" where
  "jdiv x y = div_dbl (dbl x) (dbl y)"

definition jless :: "jsnum \<Rightarrow> jsnum \<Rightarrow> bool" where
  "jless x y = less_dbl (dbl x) (dbl y)"

definition mathRound :: "jsnum \<Rightarrow> jsnum" where
  "mathRound x = round_dbl (dbl x)"

subsection \<open>The getter \<open>statistics\<close>\<close>

text \<open>
  \<open>RouteStatistics\<close>. \<open>ascent\<close> and \<open>descent\<close> are optional (\<open>None\<close>: the key is absent);
  \<open>surfaceWays\<close> and \<open>sacScaleWays\<close> hold \<open>properties["@id"]\<close>, which may be \<open>undefined\<close>;
  \<open>slength\<close> is the field \<open>length\<close>. The two counters are natural numbers: they count
  list elements, and the doubles hold every integer up to 2 to the power 53.
\<close>

record routeStatistics =
  numSegments :: nat
  numNodes :: nat
  slength :: jsnum
  surfacePct :: jsnum
  surfaceWays :: "string option list"
  sacScalePct :: jsnum
  sacScaleWays :: "string option list"
  ascent :: "jsnum option"
  descent :: "jsnum option"

text \<open>
  The accumulators of the loop over the segments, the body of the loop, and the
  values before the first segment. \<open>turfLength\<close> is the function of \<open>@turf/length\<close>
  (kilometres), a parameter here.
\<close>

record segmentTotals =
  t_numSegments :: nat
  t_numNodes :: nat
  t_surfacePct :: jsnum
  t_surfaceWays :: "string option list"
  t_sacScaleWays :: "string option list"
  t_length :: jsnum
  t_numSacScaleRelevant :: nat
  t_numSacScale :: nat

definition segmentStep :: "(feature \<Rightarrow> rat) \<Rightarrow> segmentTotals \<Rightarrow> feature \<Rightarrow> segmentTotals" where
  "segmentStep turfLength t segment =
     (let t1 = t\<lparr> t_numSegments := t_numSegments t + 1,
                  t_numNodes := t_numNodes t + length (coordinates segment) \<rparr>;
          t2 = (if properties segment ''surface'' \<noteq> None
                then t1\<lparr> t_surfacePct :=
                            jadd (t_surfacePct t1) (jdiv (Num 1) (Num (of_nat (t_numSegments t1)))) \<rparr>
                else t1\<lparr> t_surfaceWays := t_surfaceWays t1 @ [properties segment ''@id''] \<rparr>);
          t3 = (if properties segment ''highway'' \<noteq> None \<and>
                   properties segment ''highway'' \<in> set [Some ''path'', Some ''track'', Some ''footway'']
                then (let t' = t2\<lparr> t_numSacScaleRelevant := t_numSacScaleRelevant t2 + 1 \<rparr>
                      in if properties segment ''sac_scale'' \<noteq> None
                         then t'\<lparr> t_numSacScale := t_numSacScale t' + 1 \<rparr>
                         else t'\<lparr> t_sacScaleWays := t_sacScaleWays t' @ [properties segment ''@id''] \<rparr>)
                else t2)
      in t3\<lparr> t_length := jadd (t_length t3) (jmul (Num (turfLength segment)) (Num 1000)) \<rparr>)"

definition initialTotals :: segmentTotals where
  "initialTotals =
     \<lparr> t_numSegments = 0, t_numNodes = 0, t_surfacePct = Num 0, t_surfaceWays = [],
       t_sacScaleWays = [], t_length = Num 0, t_numSacScaleRelevant = 0, t_numSacScale = 0 \<rparr>"

text \<open>\<open>numSacScale / numSacScaleRelevant\<close>: \<open>0 / 0\<close> is \<open>NaN\<close>; the numerator never exceeds the denominator.\<close>

definition js_div :: "nat \<Rightarrow> nat \<Rightarrow> jsnum" where
  "js_div a b = jdiv (Num (of_nat a)) (Num (of_nat b))"

text \<open>
  The loop over the coordinates of the assembled line: \<open>(ascent, descent)\<close>. A
  comparison with a missing third component is false.
\<close>

fun climb :: "rat list list \<Rightarrow> jsnum \<times> jsnum \<Rightarrow> jsnum \<times> jsnum" where
  "climb (lastCoord # coord # rest) (asc, des) =
     climb (coord # rest)
       (case (js_nth coord 2, js_nth lastCoord 2) of
          (Some z, Some z0) \<Rightarrow>
            if jless (Num z0) (Num z) then (jadd asc (jsub (Num z) (Num z0)), des)
            else if jless (Num z) (Num z0) then (asc, jadd des (jsub (Num z0) (Num z)))
            else (asc, des)
        | _ \<Rightarrow> (asc, des))"
| "climb cs acc = acc"

text \<open>
  \<open>round\<close> is \<open>Math.round(number * 100) / 100\<close>; \<open>round(undefined)\<close> is \<open>NaN\<close>. \<open>times100\<close> is
  the factor of the percentages.
\<close>

definition round2 :: "jsnum \<Rightarrow> jsnum" where
  "round2 x = jdiv (mathRound (jmul x (Num 100))) (Num 100)"

definition round2_opt :: "jsnum option \<Rightarrow> jsnum" where
  "round2_opt x = (case x of None \<Rightarrow> NaN | Some y \<Rightarrow> round2 y)"

definition times100 :: "jsnum \<Rightarrow> jsnum" where
  "times100 x = jmul x (Num 100)"

text \<open>The block of \<open>statistics\<close> that computes ascent and descent; \<open>None\<close> is "not set".\<close>

definition elevation :: "route \<Rightarrow> (error + (jsnum option \<times> jsnum option)) option" where
  "elevation r =
     (if isRoutable r then
        (case lineStringFeature r of
           None \<Rightarrow> None
         | Some (Inl e) \<Rightarrow> Some (Inl e)
         | Some (Inr line) \<Rightarrow>
             (case coordinates line of
                [] \<Rightarrow> Some (Inl TypeError)
              | c0 # cs \<Rightarrow>
                  if length c0 = 3
                  then (case climb (c0 # cs) (Num 0, Num 0) of
                          (asc, des) \<Rightarrow> Some (Inr (Some asc, Some des)))
                  else Some (Inr (None, None))))
      else Some (Inr (None, None)))"

text \<open>
  The getter \<open>statistics\<close>: the loop, the elevation block, and the final rounding,
  which assigns \<open>ascent\<close> and \<open>descent\<close> whether they were set or not.
\<close>

definition statistics :: "(feature \<Rightarrow> rat) \<Rightarrow> route \<Rightarrow> (error + routeStatistics) option" where
  "statistics turfLength r =
     (let t = foldl (segmentStep turfLength) initialTotals (featureCollection r) in
      case elevation r of
        None \<Rightarrow> None
      | Some (Inl e) \<Rightarrow> Some (Inl e)
      | Some (Inr (asc, des)) \<Rightarrow>
          Some (Inr \<lparr> numSegments = t_numSegments t,
                      numNodes = t_numNodes t,
                      slength = round2 (t_length t),
                      surfacePct = times100 (round2 (t_surfacePct t)),
                      surfaceWays = t_surfaceWays t,
                      sacScalePct =
                        times100 (round2 (js_div (t_numSacScale t) (t_numSacScaleRelevant t))),
                      sacScaleWays = t_sacScaleWays t,
                      ascent = Some (round2_opt asc),
                      descent = Some (round2_opt des) \<rparr>))"

section \<open>Vocabulary of the theorems\<close>

subsection \<open>Graphs\<close>

text \<open>
  The nodes of a graph with exactly \<open>d\<close> neighbours, and with three or more, in
  iteration order: the bins of \<open>nodeDegrees\<close>.
\<close>

definition nodesOfDegree :: "routeGraph \<Rightarrow> nat \<Rightarrow> string list" where
  "nodesOfDegree g d = map fst (filter (\<lambda>(n, es). length es = d) g)"

definition nodesOfDegree3Plus :: "routeGraph \<Rightarrow> string list" where
  "nodesOfDegree3Plus g = map fst (filter (\<lambda>(n, es). length es \<ge> 3) g)"

text \<open>
  The reference stored for the entry from \<open>u\<close> to \<open>v\<close>, and the neighbours of a
  node in iteration order.
\<close>

definition edge :: "routeGraph \<Rightarrow> string \<Rightarrow> string \<Rightarrow> string option" where
  "edge g u v = (case map_get g u of None \<Rightarrow> None | Some nb \<Rightarrow> map_get nb v)"

definition neighbours :: "routeGraph \<Rightarrow> string \<Rightarrow> string list" where
  "neighbours g v = (case map_get g v of None \<Rightarrow> [] | Some nb \<Rightarrow> map_keys nb)"

text \<open>
  The invariant of the representation: a \<open>Map\<close> holds a key once.
\<close>

definition wellFormed :: "routeGraph \<Rightarrow> bool" where
  "wellFormed g = (distinct (map fst g) \<and> (\<forall>(n, nb) \<in> set g. distinct (map fst nb)))"

text \<open>
  The first entry of the graph is \<open>a\<close>, and the first neighbour of \<open>a\<close> is \<open>b\<close>.
\<close>

definition headShape :: "routeGraph \<Rightarrow> string \<Rightarrow> string \<Rightarrow> bool" where
  "headShape g a b = (\<exists>x nb g'. g = (a, (b, x) # nb) # g')"

subsection \<open>Segments\<close>

text \<open>
  A segment as the graph builder reads it: the two end nodes and the identifier
  of a member. What one pass of the builder's loop does with a member: skip it,
  collect an error, or insert a segment.
\<close>

type_synonym segment = "string \<times> string \<times> string"

datatype stepResult = Skipped | Failed error | Resolved segment

definition stepResult :: "member \<Rightarrow> stepResult" where
  "stepResult m =
     (if mtype m = ''node'' then Skipped
      else (case melement m of
              None \<Rightarrow> Failed TypeError
            | Some el \<Rightarrow>
                (case el_endNodes el of
                   Inl e \<Rightarrow> Failed e
                 | Inr (a, b) \<Rightarrow> Resolved (a, b, el_id el))))"

text \<open>
  The segments a list of members contributes, and the errors it raises, in order.
\<close>

fun segmentsOf :: "member list \<Rightarrow> segment list" where
  "segmentsOf [] = []"
| "segmentsOf (m # ms) =
     (case stepResult m of Resolved s \<Rightarrow> s # segmentsOf ms | _ \<Rightarrow> segmentsOf ms)"

fun failuresOf :: "member list \<Rightarrow> error list" where
  "failuresOf [] = []"
| "failuresOf (m # ms) =
     (case stepResult m of Failed e \<Rightarrow> e # failuresOf ms | _ \<Rightarrow> failuresOf ms)"

text \<open>
  The two insertions for one segment, and the members the graph is built from.
\<close>

definition addSegment :: "routeGraph \<Rightarrow> segment \<Rightarrow> routeGraph" where
  "addSegment g s =
     (case s of (a, b, i) \<Rightarrow> insertEndPair (insertEndPair g (a, b, i)) (b, a, ''-'' @ i))"

definition mainChildren :: "route \<Rightarrow> member list" where
  "mainChildren r = filter (\<lambda>m. role m \<noteq> ''alternative'') (children r)"

text \<open>
  Two segments join the same unordered pair of nodes; no two different segments
  of a list do.
\<close>

definition sameEnds :: "segment \<Rightarrow> segment \<Rightarrow> bool" where
  "sameEnds s t =
     (case s of (a, b, i) \<Rightarrow> case t of (a', b', i') \<Rightarrow>
        (a = a' \<and> b = b') \<or> (a = b' \<and> b = a'))"

definition uniqueEnds :: "segment list \<Rightarrow> bool" where
  "uniqueEnds ss = (\<forall>s \<in> set ss. \<forall>t \<in> set ss. sameEnds t s \<longrightarrow> t = s)"

subsection \<open>Chains of oriented segments\<close>

text \<open>
  A segment with a direction of travel (True: against its own orientation), its
  start and end node in that direction, and the reference the graph builder
  writes for it.
\<close>

type_synonym oriented = "segment \<times> bool"

fun ostart :: "oriented \<Rightarrow> string" where
  "ostart ((a, b, i), reversed) = (if reversed then b else a)"

fun oend :: "oriented \<Rightarrow> string" where
  "oend ((a, b, i), reversed) = (if reversed then a else b)"

fun oref :: "oriented \<Rightarrow> string" where
  "oref ((a, b, i), reversed) = (if reversed then ''-'' @ i else i)"

text \<open>
  Continuous chaining: each segment ends where the next one starts.
\<close>

fun chained :: "oriented list \<Rightarrow> bool" where
  "chained (x # y # os) = (oend x = ostart y \<and> chained (y # os))"
| "chained _ = True"

text \<open>
  The nodes a chain visits, in order.
\<close>

definition pathNodes :: "oriented list \<Rightarrow> string list" where
  "pathNodes os = (case os of [] \<Rightarrow> [] | x # _ \<Rightarrow> ostart x # map oend os)"

text \<open>
  A chain travelled the other way round.
\<close>

definition flip1 :: "oriented \<Rightarrow> oriented" where
  "flip1 x = (fst x, \<not> snd x)"

definition flip :: "oriented list \<Rightarrow> oriented list" where
  "flip os = rev (map flip1 os)"

text \<open>
  The segments \<open>ss\<close> are, in some order and orientation \<open>os\<close>, a simple path: every
  segment once, each starting where the one before ends, no node visited twice.
  The node identifier \<open>-1\<close> is the value the walk starts its variables with.
\<close>

definition simplePath :: "segment list \<Rightarrow> oriented list \<Rightarrow> bool" where
  "simplePath ss os =
     (os \<noteq> [] \<and> mset (map fst os) = mset ss \<and> chained os \<and>
      distinct (pathNodes os) \<and> ''-1'' \<notin> set (pathNodes os))"

text \<open>
  The same for a simple cycle of at least three segments: the chain closes.
\<close>

definition simpleCycle :: "segment list \<Rightarrow> oriented list \<Rightarrow> bool" where
  "simpleCycle ss os =
     (3 \<le> length os \<and> mset (map fst os) = mset ss \<and> chained os \<and>
      oend (last os) = ostart (hd os) \<and>
      distinct (map ostart os) \<and> ''-1'' \<notin> set (map ostart os))"

text \<open>
  Two nodes are consecutive, in either order, somewhere in a list of nodes.
\<close>

definition adjacentIn :: "'a list \<Rightarrow> 'a \<Rightarrow> 'a \<Rightarrow> bool" where
  "adjacentIn ws u v =
     (\<exists>k. Suc k < length ws \<and>
        ((ws ! k = u \<and> ws ! Suc k = v) \<or> (ws ! k = v \<and> ws ! Suc k = u)))"

text \<open>
  The node list of a simple path, and of a simple cycle (closed: its last node is
  its first).
\<close>

definition pathLike :: "'a list \<Rightarrow> bool" where
  "pathLike ws = (distinct ws \<and> 2 \<le> length ws)"

definition cycleLike :: "'a list \<Rightarrow> bool" where
  "cycleLike ws = (distinct (butlast ws) \<and> last ws = hd ws \<and> 4 \<le> length ws)"

text \<open>
  What the walk needs to know of a graph \<open>g\<close> whose edges are the segments of the
  chain \<open>os\<close>: its keys are the nodes of the chain, the neighbours of a node are
  the nodes next to it in the chain, and the entry from the start to the end of
  each oriented segment carries its reference.
\<close>

definition chainGraph :: "routeGraph \<Rightarrow> oriented list \<Rightarrow> bool" where
  "chainGraph g os =
     (os \<noteq> [] \<and> chained os \<and> wellFormed g \<and>
      set (map fst g) = set (pathNodes os) \<and>
      (\<forall>u v. v \<in> set (neighbours g u) \<longleftrightarrow> adjacentIn (pathNodes os) u v) \<and>
      (\<forall>x \<in> set os. ostart x \<noteq> oend x \<longrightarrow> edge g (ostart x) (oend x) = Some (oref x)))"

subsection \<open>Geometries of oriented segments\<close>

text \<open>
  The identifier of a child; the coordinates of the child with a given identifier
  (of the first one, should several have it); the coordinates of an oriented
  segment in its direction of travel; and a list of coordinate sequences joined
  into one, every sequence after the first without its leading coordinate.
\<close>

definition childId :: "member \<Rightarrow> string" where
  "childId m = (case melement m of None \<Rightarrow> [] | Some el \<Rightarrow> el_id el)"

definition geometryOf :: "route \<Rightarrow> string \<Rightarrow> rat list list" where
  "geometryOf r i =
     (case filter (\<lambda>m. childId m = i) (children r) of
        [] \<Rightarrow> []
      | m # ms \<Rightarrow> (case melement m of None \<Rightarrow> [] | Some el \<Rightarrow> coordinates (el_lineStringFeature el)))"

fun directedGeometry :: "route \<Rightarrow> oriented \<Rightarrow> rat list list" where
  "directedGeometry r ((a, b, i), reversed) =
     (if reversed then rev (geometryOf r i) else geometryOf r i)"

fun joined :: "'a list list \<Rightarrow> 'a list" where
  "joined [] = []"
| "joined (c # cs) = c @ concat (map (drop 1) cs)"

subsection \<open>Example routes\<close>

text \<open>
  A way member with an identifier, two end nodes and a role; a way member of role
  \<open>main\<close> with a line feature; a route of such members.
\<close>

definition exWay :: "string \<Rightarrow> string \<Rightarrow> string \<Rightarrow> string \<Rightarrow> member" where
  "exWay i a b ro =
     \<lparr> mtype = ''way'', role = ro,
       melement = Some \<lparr> el_id = i, el_endNodes = Inr (a, b),
         el_lineStringFeature = \<lparr> properties = Map.empty, coordinates = [] \<rparr> \<rparr> \<rparr>"

definition exFeature :: "(string \<times> string) list \<Rightarrow> rat list list \<Rightarrow> feature" where
  "exFeature ps cs = \<lparr> properties = map_of ps, coordinates = cs \<rparr>"

definition exWayWith :: "string \<Rightarrow> string \<Rightarrow> string \<Rightarrow> feature \<Rightarrow> member" where
  "exWayWith i a b f =
     \<lparr> mtype = ''way'', role = ''main'',
       melement = Some \<lparr> el_id = i, el_endNodes = Inr (a, b), el_lineStringFeature = f \<rparr> \<rparr>"

definition exRoute :: "member list \<Rightarrow> route" where
  "exRoute ms = \<lparr> rid = ''r'', tags = Map.empty, rproperties = Map.empty, members = ms \<rparr>"

text \<open>
  One closed way; a path of two ways; a node with three ways; no member at all;
  two ways between the same two nodes; a way of role \<open>forward\<close> and an alternative;
  a way whose end nodes cannot be read; a triangle; a way beside a triangle; a
  closed way with a spur.
\<close>

definition selfLoopRoute :: route where
  "selfLoopRoute = exRoute [exWay ''1'' ''A'' ''A'' ''main'']"

definition pathRoute :: route where
  "pathRoute = exRoute [exWay ''1'' ''A'' ''B'' ''main'', exWay ''2'' ''B'' ''C'' ''main'']"

definition starRoute :: route where
  "starRoute = exRoute [exWay ''1'' ''A'' ''B'' ''main'', exWay ''2'' ''B'' ''C'' ''main'',
     exWay ''3'' ''B'' ''D'' ''main'']"

definition emptyRoute :: route where
  "emptyRoute = exRoute []"

definition parallelRoute :: route where
  "parallelRoute = exRoute [exWay ''1'' ''A'' ''B'' ''main'', exWay ''2'' ''A'' ''B'' ''main'']"

definition forwardRoute :: route where
  "forwardRoute = exRoute [exWay ''1'' ''A'' ''B'' ''forward'', exWay ''2'' ''B'' ''C'' ''alternative'']"

definition failingRoute :: route where
  "failingRoute = exRoute [\<lparr> mtype = ''way'', role = ''main'',
       melement = Some \<lparr> el_id = ''1'', el_endNodes = Inl TypeError,
         el_lineStringFeature = \<lparr> properties = Map.empty, coordinates = [] \<rparr> \<rparr> \<rparr>]"

definition cycleRoute :: route where
  "cycleRoute = exRoute [exWay ''1'' ''A'' ''B'' ''main'', exWay ''2'' ''C'' ''B'' ''main'',
     exWay ''3'' ''C'' ''A'' ''main'']"

definition disconnectedRoute :: route where
  "disconnectedRoute = exRoute [exWay ''1'' ''A'' ''B'' ''main'', exWay ''2'' ''C'' ''D'' ''main'',
     exWay ''3'' ''D'' ''E'' ''main'', exWay ''4'' ''E'' ''C'' ''main'']"

definition lollipopRoute :: route where
  "lollipopRoute = exRoute [exWay ''1'' ''A'' ''A'' ''main'', exWay ''2'' ''A'' ''B'' ''main'']"

text \<open>
  Two ways of two coordinates each, the first with a \<open>surface\<close> tag and the second
  without; the same two in the other order; two ways with elevations.
\<close>

definition taggedFirstRoute :: route where
  "taggedFirstRoute = exRoute
     [exWayWith ''1'' ''A'' ''B'' (exFeature [(''@id'', ''way/1''), (''surface'', ''gravel'')] [[0, 0], [1, 1]]),
      exWayWith ''2'' ''B'' ''C'' (exFeature [(''@id'', ''way/2'')] [[1, 1], [2, 2]])]"

definition untaggedFirstRoute :: route where
  "untaggedFirstRoute = exRoute
     [exWayWith ''2'' ''B'' ''C'' (exFeature [(''@id'', ''way/2'')] [[1, 1], [2, 2]]),
      exWayWith ''1'' ''A'' ''B'' (exFeature [(''@id'', ''way/1''), (''surface'', ''gravel'')] [[0, 0], [1, 1]])]"

definition climbRoute :: route where
  "climbRoute = exRoute
     [exWayWith ''1'' ''A'' ''B'' (exFeature [] [[0, 0, 10], [1, 1, 15], [2, 2, 15]]),
      exWayWith ''2'' ''C'' ''B'' (exFeature [] [[4, 4, 7], [3, 3, 12], [2, 2, 15]])]"

section \<open>Degree bins, the graph builder and the claims about them\<close>

lemma nodeDegreesOf_snoc:
  "nodeDegreesOf (g @ [(n, es)]) =
     (nodeDegreesOf g)[min (length es) 3 := nodeDegreesOf g ! (min (length es) 3) @ [n]]"
  by (simp add: nodeDegreesOf_def)

lemma nodeDegreesOf_eq:
  "nodeDegreesOf g =
     [nodesOfDegree g 0, nodesOfDegree g 1, nodesOfDegree g 2, nodesOfDegree3Plus g]"
proof (induction g rule: rev_induct)
  case Nil
  then show ?case by (simp add: nodeDegreesOf_def nodesOfDegree_def nodesOfDegree3Plus_def)
next
  case (snoc x g)
  obtain n es where x: "x = (n, es)" by (cases x)
  have "length es = 0 \<or> length es = 1 \<or> length es = 2 \<or> length es \<ge> 3"
    by linarith
  then show ?case
    unfolding x nodeDegreesOf_snoc snoc.IH
    by (elim disjE) (auto simp add: nodesOfDegree_def nodesOfDegree3Plus_def)
qed

lemma isRoutable_graph:
  "routeGraph r = Inr g \<Longrightarrow>
     isRoutable r = (nodesOfDegree3Plus g = [] \<and> length (nodesOfDegree g 1) \<le> 2)"
  by (auto simp add: isRoutable_def nodeDegrees_def nodeDegreesOf_eq Let_def)

lemma isRoutable_failed: "routeGraph r = Inl e \<Longrightarrow> \<not> isRoutable r"
  by (simp add: isRoutable_def nodeDegrees_def)

lemma selfLoop_graph: "routeGraph selfLoopRoute = Inr [(''A'', [(''A'', ''-1'')])]"
  by (simp add: selfLoopRoute_def exRoute_def exWay_def routeGraph_def children_def
      buildRouteGraph_def buildStep_def insertEndPair_def map_get_def)

lemma pathRoute_graph:
  "routeGraph pathRoute =
     Inr [(''A'', [(''B'', ''1'')]), (''B'', [(''A'', ''-1''), (''C'', ''2'')]), (''C'', [(''B'', ''-2'')])]"
  by (simp add: pathRoute_def exRoute_def exWay_def routeGraph_def children_def
      buildRouteGraph_def buildStep_def insertEndPair_def map_get_def)

lemma starRoute_graph:
  "routeGraph starRoute =
     Inr [(''A'', [(''B'', ''1'')]), (''B'', [(''A'', ''-1''), (''C'', ''2''), (''D'', ''3'')]),
          (''C'', [(''B'', ''-2'')]), (''D'', [(''B'', ''-3'')])]"
  by (simp add: starRoute_def exRoute_def exWay_def routeGraph_def children_def
      buildRouteGraph_def buildStep_def insertEndPair_def map_get_def)

text \<open>
  Claim C1, as the code has it. When the graph of a route builds, \<open>isRoutable\<close> is
  true exactly when no node has three or more neighbours and at most two nodes
  have exactly one neighbour. The test for a round trip is \<open>length < 2\<close>, so a
  graph with a single node of degree one is routable too (the counterexample
  below: one way whose two end nodes are the same node).
\<close>
theorem isRoutable_iff_degrees:
  "routeGraph r = Inr g \<Longrightarrow>
     isRoutable r \<longleftrightarrow> nodesOfDegree3Plus g = [] \<and> length (nodesOfDegree g 1) \<le> 2"
  by (rule isRoutable_graph)

theorem isRoutable_iff_degrees_witness:
  "routeGraph starRoute = Inr [(''A'', [(''B'', ''1'')]), (''B'', [(''A'', ''-1''), (''C'', ''2''), (''D'', ''3'')]),
          (''C'', [(''B'', ''-2'')]), (''D'', [(''B'', ''-3'')])] \<and> isRoutable starRoute = False"
  using isRoutable_iff_degrees [OF starRoute_graph] starRoute_graph
  by (simp add: nodesOfDegree3Plus_def)

theorem isRoutable_one_dead_end_counterexample:
  "routeGraph selfLoopRoute = Inr [(''A'', [(''A'', ''-1'')])] \<and>
   nodesOfDegree [(''A'', [(''A'', ''-1'')])] 1 = [''A''] \<and>
   nodesOfDegree3Plus [(''A'', [(''A'', ''-1'')])] = [] \<and>
   isRoutable selfLoopRoute"
  using isRoutable_graph [OF selfLoop_graph] selfLoop_graph
  by (simp add: nodesOfDegree_def nodesOfDegree3Plus_def)

lemma buildStep_stepResult:
  "buildStep (g, errs) m =
     (case stepResult m of
        Skipped \<Rightarrow> (g, errs)
      | Failed e \<Rightarrow> (g, errs @ [e])
      | Resolved s \<Rightarrow> (addSegment g s, errs))"
  by (simp add: buildStep_def stepResult_def addSegment_def split: option.split sum.split prod.split)

lemma foldl_buildStep:
  "foldl buildStep (g, errs) ms = (foldl addSegment g (segmentsOf ms), errs @ failuresOf ms)"
proof (induction ms arbitrary: g errs)
  case Nil
  show ?case by simp
next
  case (Cons m ms)
  show ?case
    by (cases "stepResult m") (simp_all add: buildStep_stepResult Cons.IH)
qed

lemma buildRouteGraph_eq:
  "buildRouteGraph r ms =
     (if failuresOf ms = [] then Inr (foldl addSegment [] (segmentsOf ms))
      else Inl (superRouteTopologyError r (failuresOf ms)))"
  by (simp add: buildRouteGraph_def foldl_buildStep)

lemma routeGraph_eq:
  "routeGraph r =
     (if failuresOf (mainChildren r) = []
      then Inr (foldl addSegment [] (segmentsOf (mainChildren r)))
      else Inl (superRouteTopologyError r (failuresOf (mainChildren r))))"
  by (simp add: routeGraph_def mainChildren_def buildRouteGraph_eq)

lemma routeGraph_InrD:
  "routeGraph r = Inr g \<Longrightarrow> g = foldl addSegment [] (segmentsOf (mainChildren r))"
  by (simp add: routeGraph_eq split: if_splits)

lemma map_of_map_set: "map_of (map_set k v m) = (map_of m)(k \<mapsto> v)"
  by (induction m) (auto simp add: fun_eq_iff)

lemma keys_map_set:
  "map fst (map_set k v m) = (if k \<in> set (map fst m) then map fst m else map fst m @ [k])"
  by (induction m) (auto simp add: rev_image_eqI)

lemma edge_insertEndPair:
  "edge (insertEndPair g (a, b, r)) u v = (if u = a \<and> v = b then Some r else edge g u v)"
  by (cases "map_of g a") (simp_all add: edge_def insertEndPair_def map_get_def map_of_map_set)

lemma edge_addSegment:
  "edge (addSegment g (a, b, i)) u v =
     (if u = b \<and> v = a then Some (''-'' @ i)
      else if u = a \<and> v = b then Some i
      else edge g u v)"
  by (simp add: addSegment_def edge_insertEndPair)

lemma edge_empty: "edge [] u v = None"
  by (simp add: edge_def map_get_def)

lemma edge_foldl_snoc:
  "edge (foldl addSegment g (ss @ [(a, b, i)])) u v =
     (if u = b \<and> v = a then Some (''-'' @ i)
      else if u = a \<and> v = b then Some i
      else edge (foldl addSegment g ss) u v)"
  by (simp add: edge_addSegment)

lemma edge_snoc_defined:
  "edge (foldl addSegment g (ss @ [(a, b, i)])) u v \<noteq> None \<longleftrightarrow>
     (u = b \<and> v = a) \<or> (u = a \<and> v = b) \<or> edge (foldl addSegment g ss) u v \<noteq> None"
  by (auto simp add: edge_addSegment)

lemma edge_snoc_cases:
  "edge (foldl addSegment g (ss @ [(a', b', i')])) u v = edge (foldl addSegment g ss) u v \<or>
     (u = b' \<and> v = a') \<or> (u = a' \<and> v = b')"
  by (simp add: edge_addSegment)

lemma edge_snoc_other:
  assumes "\<not> sameEnds (a', b', i') (u, v, j)"
  shows "edge (foldl addSegment g (ss @ [(a', b', i')])) u v = edge (foldl addSegment g ss) u v"
proof -
  from assms have "\<not> (u = b' \<and> v = a')" and "\<not> (u = a' \<and> v = b')"
    unfolding sameEnds_def prod.case by blast+
  then show ?thesis
    using edge_snoc_cases [of g ss a' b' i' u v] by blast
qed

lemma edge_snoc_SomeD:
  "edge (foldl addSegment g (ss @ [(a, b, i)])) u v = Some x \<Longrightarrow>
     (u = b \<and> v = a \<and> x = ''-'' @ i) \<or> (u = a \<and> v = b \<and> x = i) \<or>
     edge (foldl addSegment g ss) u v = Some x"
  by (auto simp add: edge_addSegment split: if_splits)

lemma edge_foldl_defined:
  "edge (foldl addSegment [] ss) u v \<noteq> None \<longleftrightarrow>
     (\<exists>i. (u, v, i) \<in> set ss \<or> (v, u, i) \<in> set ss)"
proof (induction ss rule: rev_induct)
  case Nil
  show ?case by (simp add: edge_empty)
next
  case (snoc x xs)
  obtain a b i where x: "x = (a, b, i)" by (cases x)
  have "edge (foldl addSegment [] (xs @ [(a, b, i)])) u v \<noteq> None \<longleftrightarrow>
          (u = b \<and> v = a) \<or> (u = a \<and> v = b) \<or> edge (foldl addSegment [] xs) u v \<noteq> None"
    by (rule edge_snoc_defined)
  also have "\<dots> \<longleftrightarrow> (\<exists>i. (u, v, i) \<in> set (xs @ [x]) \<or> (v, u, i) \<in> set (xs @ [x]))"
    unfolding snoc.IH x by auto
  finally show ?case unfolding x .
qed

lemma edge_foldl_source:
  "edge (foldl addSegment [] ss) u v = Some x \<Longrightarrow>
     (u, v, x) \<in> set ss \<or> (\<exists>i. (v, u, i) \<in> set ss \<and> x = ''-'' @ i)"
proof (induction ss rule: rev_induct)
  case Nil
  then show ?case by (simp add: edge_empty)
next
  case (snoc y ys)
  obtain a b i where y: "y = (a, b, i)" by (cases y)
  from snoc.prems have "(u = b \<and> v = a \<and> x = ''-'' @ i) \<or> (u = a \<and> v = b \<and> x = i) \<or>
     edge (foldl addSegment [] ys) u v = Some x"
    unfolding y by (rule edge_snoc_SomeD)
  then show ?case using snoc.IH unfolding y by auto
qed

lemma edge_foldl_last_rev:
  "\<forall>t \<in> set post. \<not> sameEnds t (a, b, i) \<Longrightarrow>
     edge (foldl addSegment g (pre @ (a, b, i) # post)) b a = Some (''-'' @ i)"
proof (induction post rule: rev_induct)
  case Nil
  show ?case by (simp add: edge_addSegment)
next
  case (snoc y ys)
  obtain a' b' i' where y: "y = (a', b', i')" by (cases y)
  from snoc.prems have "\<not> sameEnds (a', b', i') (a, b, i)"
    and rest: "\<forall>t \<in> set ys. \<not> sameEnds t (a, b, i)"
    by (simp_all add: y)
  then have ne: "\<not> sameEnds (a', b', i') (b, a, i)"
    unfolding sameEnds_def prod.case by blast
  have "edge (foldl addSegment g ((pre @ (a, b, i) # ys) @ [(a', b', i')])) b a =
        edge (foldl addSegment g (pre @ (a, b, i) # ys)) b a"
    using ne by (rule edge_snoc_other)
  then show ?case using snoc.IH [OF rest] by (simp add: y)
qed

lemma edge_foldl_last_fwd:
  "\<forall>t \<in> set post. \<not> sameEnds t (a, b, i) \<Longrightarrow> a \<noteq> b \<Longrightarrow>
     edge (foldl addSegment g (pre @ (a, b, i) # post)) a b = Some i"
proof (induction post rule: rev_induct)
  case Nil
  then show ?case by (simp add: edge_addSegment)
next
  case (snoc y ys)
  obtain a' b' i' where y: "y = (a', b', i')" by (cases y)
  from snoc.prems have ne: "\<not> sameEnds (a', b', i') (a, b, i)"
    and rest: "\<forall>t \<in> set ys. \<not> sameEnds t (a, b, i)"
    by (simp_all add: y)
  have "edge (foldl addSegment g ((pre @ (a, b, i) # ys) @ [(a', b', i')])) a b =
        edge (foldl addSegment g (pre @ (a, b, i) # ys)) a b"
    using ne by (rule edge_snoc_other)
  then show ?case using snoc.IH [OF rest snoc.prems(2)] by (simp add: y)
qed

lemma map_of_defined_iff: "map_of m k \<noteq> None \<longleftrightarrow> k \<in> set (map fst m)"
  by (simp add: map_of_eq_None_iff)

lemma neighbours_edge: "v \<in> set (neighbours g u) \<longleftrightarrow> edge g u v \<noteq> None"
proof (cases "map_of g u")
  case None
  then show ?thesis by (simp add: neighbours_def edge_def map_get_def)
next
  case (Some nb)
  then show ?thesis
    using map_of_defined_iff [of nb v]
    by (simp add: neighbours_def edge_def map_get_def map_keys_def)
qed

lemmas ex_defs = exRoute_def exWay_def routeGraph_def children_def
      buildRouteGraph_def buildStep_def insertEndPair_def map_get_def

lemma stepResult_Resolved_iff:
  "stepResult m = Resolved (a, b, i) \<longleftrightarrow>
     mtype m \<noteq> ''node'' \<and> (\<exists>el. melement m = Some el \<and> el_endNodes el = Inr (a, b) \<and> i = el_id el)"
  by (auto simp add: stepResult_def split: option.splits sum.splits)

lemma stepResult_Failed_iff:
  "stepResult m = Failed e \<longleftrightarrow>
     mtype m \<noteq> ''node'' \<and>
     (melement m = None \<and> e = TypeError \<or> (\<exists>el. melement m = Some el \<and> el_endNodes el = Inl e))"
  by (auto simp add: stepResult_def split: option.splits sum.splits)

lemma set_segmentsOf: "set (segmentsOf ms) = {s. \<exists>m \<in> set ms. stepResult m = Resolved s}"
  by (induction ms) (auto split: stepResult.splits)

lemma set_failuresOf: "set (failuresOf ms) = {e. \<exists>m \<in> set ms. stepResult m = Failed e}"
  by (induction ms) (auto split: stepResult.splits)

lemma mainChildren_member:
  "m \<in> set (mainChildren r) \<longleftrightarrow>
     m \<in> set (members r) \<and> mtype m = ''way'' \<and> melement m \<noteq> None \<and> role m \<noteq> ''alternative''"
  by (auto simp add: mainChildren_def children_def)

lemma mainChildren_not_node: "m \<in> set (mainChildren r) \<Longrightarrow> mtype m \<noteq> ''node''"
  by (simp add: mainChildren_member)

lemma failing_child:
  assumes "m \<in> set (mainChildren r)" "melement m = Some el" "el_endNodes el = Inl e"
  shows "\<exists>e'. routeGraph r = Inl e'"
proof -
  have "stepResult m = Failed e"
    using assms mainChildren_not_node [OF assms(1)] by (simp add: stepResult_Failed_iff)
  then have "e \<in> set (failuresOf (mainChildren r))"
    using assms(1) by (auto simp add: set_failuresOf)
  then have "failuresOf (mainChildren r) \<noteq> []" by auto
  then show ?thesis by (simp add: routeGraph_eq)
qed

text \<open>
  A failure while the graph is built (a child whose \<open>endNodes\<close> throws, collected
  into the composite error) is caught by \<open>isRoutable\<close> and gives false.
\<close>

lemma isRoutable_catches_failures:
  "(m \<in> set (mainChildren r) \<and> melement m = Some el \<and> el_endNodes el = Inl e \<longrightarrow> \<not> isRoutable r) \<and>
   (routeGraph r = Inl e' \<longrightarrow> \<not> isRoutable r)"
proof (intro conjI impI)
  assume "m \<in> set (mainChildren r) \<and> melement m = Some el \<and> el_endNodes el = Inl e"
  then obtain e'' where "routeGraph r = Inl e''" using failing_child by blast
  then show "\<not> isRoutable r" by (rule isRoutable_failed)
next
  assume "routeGraph r = Inl e'"
  then show "\<not> isRoutable r" by (rule isRoutable_failed)
qed

lemma failingRoute_not_routable:
  "isRoutable failingRoute = False \<and> (\<exists>e. routeGraph failingRoute = Inl e)"
proof -
  let ?el = "\<lparr> el_id = ''1'', el_endNodes = Inl TypeError,
         el_lineStringFeature = \<lparr> properties = Map.empty, coordinates = [] \<rparr> \<rparr>"
  let ?m = "\<lparr> mtype = ''way'', role = ''main'', melement = Some ?el \<rparr>"
  have m: "?m \<in> set (mainChildren failingRoute) \<and> melement ?m = Some ?el \<and> el_endNodes ?el = Inl TypeError"
    by (simp add: failingRoute_def exRoute_def mainChildren_def children_def)
  have "\<not> isRoutable failingRoute"
    using isRoutable_catches_failures [of ?m failingRoute ?el TypeError] m by blast
  moreover have "\<exists>e. routeGraph failingRoute = Inl e"
    using m failing_child by blast
  ultimately show ?thesis by simp
qed

lemma emptyRoute_graph: "routeGraph emptyRoute = Inr []"
  by (simp add: emptyRoute_def ex_defs)

lemma emptyRoute_routable: "isRoutable emptyRoute"
  using isRoutable_graph [OF emptyRoute_graph]
  by (simp add: nodesOfDegree_def nodesOfDegree3Plus_def)

lemma emptyRoute_ordered: "orderedChildIds emptyRoute = Some (Inl TypeError)"
  by (simp add: emptyRoute_graph emptyRoute_routable orderedChildIds_def orderedChildIdsOf_def
      firstDegreeOne_def)

text \<open>
  Claim C3 at the input where the code departs from it: a route without a way
  member to build the graph from. The graph builds and is empty, so nothing is
  thrown and nothing caught; the four bins are empty, and the degree test accepts
  them: \<open>isRoutable\<close> is true, where the claim says false. \<open>orderedChildIds\<close>, which
  relies on the verdict, then reads the first entry of the empty graph and raises
  a \<open>TypeError\<close>.
\<close>

theorem isRoutable_empty_route:
  "routeGraph emptyRoute = Inr [] \<and> isRoutable emptyRoute \<and>
   orderedChildIds emptyRoute = Some (Inl TypeError)"
  by (simp add: emptyRoute_graph emptyRoute_routable emptyRoute_ordered)

text \<open>
  Where \<open>endNodes\<close> does what its comment says. For a routable route whose degree-one
  nodes are exactly \<open>a\<close> and \<open>b\<close> (in iteration order) it is the pair \<open>(a, b)\<close>; for a
  routable route with no degree-one node it is the first degree-two node, twice;
  for a route that is not routable it throws a \<open>RouteTopologyError\<close> whose node list
  contains every node of degree three or more. When the graph itself cannot be
  built, the constructor of that error rethrows the builder's composite error.
\<close>

lemma endNodes_cases:
  "(case routeGraph r of
      Inl e \<Rightarrow> endNodes r = Inl e
    | Inr g \<Rightarrow>
        (isRoutable r \<and> nodesOfDegree g 1 = [a, b] \<longrightarrow> endNodes r = Inr (Some a, Some b)) \<and>
        (isRoutable r \<and> nodesOfDegree g 1 = [] \<and> nodesOfDegree g 2 = c # cs \<longrightarrow>
           endNodes r = Inr (Some c, Some c)) \<and>
        (\<not> isRoutable r \<longrightarrow>
           (\<exists>ns msg. endNodes r = Inl (RouteTopologyError ns msg) \<and>
              set (nodesOfDegree3Plus g) \<subseteq> set ns)))"
proof (cases "routeGraph r")
  case (Inl e)
  then show ?thesis
    by (simp add: endNodes_def isRoutable_failed routeTopologyError_def nodeDegrees_def)
next
  case (Inr g)
  have nd: "nodeDegrees r = Inr [nodesOfDegree g 0, nodesOfDegree g 1, nodesOfDegree g 2, nodesOfDegree3Plus g]"
    by (simp add: nodeDegrees_def Inr nodeDegreesOf_eq)
  have one: "isRoutable r \<and> nodesOfDegree g 1 = [a, b] \<longrightarrow> endNodes r = Inr (Some a, Some b)"
    by (simp add: endNodes_def nd)
  have two: "isRoutable r \<and> nodesOfDegree g 1 = [] \<and> nodesOfDegree g 2 = c # cs \<longrightarrow>
           endNodes r = Inr (Some c, Some c)"
    by (simp add: endNodes_def nd)
  have three: "\<not> isRoutable r \<longrightarrow>
           (\<exists>ns msg. endNodes r = Inl (RouteTopologyError ns msg) \<and>
              set (nodesOfDegree3Plus g) \<subseteq> set ns)"
    by (auto simp add: endNodes_def routeTopologyError_def nd Let_def)
  show ?thesis using one two three by (simp add: Inr)
qed

lemma endNodes_examples:
  "\<not> isRoutable starRoute \<and>
   endNodes starRoute =
     Inl (RouteTopologyError [''B'', ''A'', ''C'', ''D'']
            ''r (undefined) is not routable: 1 node > 2deg,3 dead end'') \<and>
   isRoutable pathRoute \<and> endNodes pathRoute = Inr (Some ''A'', Some ''C'')"
proof -
  have s: "\<not> isRoutable starRoute"
    using isRoutable_graph [OF starRoute_graph] by (simp add: nodesOfDegree3Plus_def)
  have p: "isRoutable pathRoute"
    using isRoutable_graph [OF pathRoute_graph] by (simp add: nodesOfDegree3Plus_def nodesOfDegree_def)
  have "endNodes pathRoute = Inr (Some ''A'', Some ''C'')"
    using endNodes_cases [of pathRoute "''A''" "''C''"] p
    by (simp add: pathRoute_graph nodesOfDegree_def)
  moreover have "endNodes starRoute =
     Inl (RouteTopologyError [''B'', ''A'', ''C'', ''D'']
            ''r (undefined) is not routable: 1 node > 2deg,3 dead end'')"
  proof -
    have "tagName starRoute = ''undefined''" and "rid starRoute = ''r''"
      by (simp_all add: tagName_def starRoute_def exRoute_def)
    then show ?thesis
      using endNodes_cases [of starRoute] s
      by (simp add: starRoute_graph endNodes_def routeTopologyError_def nodeDegrees_def
        nodeDegreesOf_eq nodesOfDegree_def nodesOfDegree3Plus_def string_of_nat.simps)
  qed
  ultimately show ?thesis using s p by simp
qed

lemma lollipopRoute_graph:
  "routeGraph lollipopRoute = Inr [(''A'', [(''A'', ''-1''), (''B'', ''2'')]), (''B'', [(''A'', ''-2'')])]"
  by (simp add: lollipopRoute_def ex_defs)

text \<open>
  Claim C4 at the inputs where the code departs from it: routable routes with
  exactly one node of degree one. \<open>isRoutable\<close> takes them for round trips (its
  test is \<open>length < 2\<close>), but \<open>endNodes\<close> takes the round trip only when there is no
  node of degree one (its test is \<open>length === 0\<close>), and otherwise returns the first
  two entries of the bin of degree one, of which the second does not exist. For a
  single closed way at \<open>A\<close> the result is \<open>[A, undefined]\<close>; for a closed way at \<open>A\<close>
  with a spur to \<open>B\<close> the node \<open>A\<close> has degree two, and the result is \<open>[B, undefined]\<close>,
  not \<open>A\<close> twice. For the route without members, which is reported routable as
  well, both components are \<open>undefined\<close>.
\<close>

theorem endNodes_one_dead_end:
  "isRoutable selfLoopRoute \<and> endNodes selfLoopRoute = Inr (Some ''A'', None) \<and>
   isRoutable lollipopRoute \<and>
   nodeDegrees lollipopRoute = Inr [[], [''B''], [''A''], []] \<and>
   endNodes lollipopRoute = Inr (Some ''B'', None) \<and>
   isRoutable emptyRoute \<and> endNodes emptyRoute = Inr (None, None)"
proof -
  have s: "isRoutable selfLoopRoute"
    using isRoutable_graph [OF selfLoop_graph] by (simp add: nodesOfDegree_def nodesOfDegree3Plus_def)
  have l: "isRoutable lollipopRoute"
    using isRoutable_graph [OF lollipopRoute_graph]
    by (simp add: nodesOfDegree_def nodesOfDegree3Plus_def)
  have "endNodes selfLoopRoute = Inr (Some ''A'', None)"
    by (simp add: endNodes_def s nodeDegrees_def selfLoop_graph nodeDegreesOf_eq nodesOfDegree_def)
  moreover have "nodeDegrees lollipopRoute = Inr [[], [''B''], [''A''], []]"
    by (simp add: nodeDegrees_def lollipopRoute_graph nodeDegreesOf_eq nodesOfDegree_def
        nodesOfDegree3Plus_def)
  moreover have "endNodes lollipopRoute = Inr (Some ''B'', None)"
    by (simp add: endNodes_def l nodeDegrees_def lollipopRoute_graph nodeDegreesOf_eq
        nodesOfDegree_def)
  moreover have "endNodes emptyRoute = Inr (None, None)"
    by (simp add: endNodes_def emptyRoute_routable nodeDegrees_def emptyRoute_graph
        nodeDegreesOf_eq nodesOfDegree_def)
  ultimately show ?thesis using s l emptyRoute_routable by simp
qed

lemma resolved_child:
  assumes "m \<in> set (mainChildren r)" "melement m = Some el" "el_endNodes el = Inr (a, b)"
  shows "(a, b, el_id el) \<in> set (segmentsOf (mainChildren r))"
proof -
  have "stepResult m = Resolved (a, b, el_id el)"
    using assms mainChildren_not_node [OF assms(1)] by (simp add: stepResult_Resolved_iff)
  then show ?thesis using assms(1) by (auto simp add: set_segmentsOf)
qed

lemma segment_child:
  assumes "(a, b, i) \<in> set (segmentsOf (mainChildren r))"
  shows "\<exists>m \<in> set (mainChildren r). \<exists>el. melement m = Some el \<and> el_endNodes el = Inr (a, b) \<and> i = el_id el"
  using assms by (auto simp add: set_segmentsOf stepResult_Resolved_iff)

lemma edge_symmetric:
  "(edge (foldl addSegment [] ss) u v \<noteq> None) = (edge (foldl addSegment [] ss) v u \<noteq> None)"
  unfolding edge_foldl_defined by blast

text \<open>
  Claim C5, as the code has it. In a graph that builds, \<open>v\<close> is a neighbour of \<open>u\<close>
  exactly when \<open>u\<close> is a neighbour of \<open>v\<close>, and the two end nodes of every
  contributing segment are neighbours of each other. The references are those
  of the last segment inserted for a pair of nodes: for a segment \<open>(a, b, i)\<close> that
  no later segment shares its end nodes with, \<open>b \<rightarrow> a\<close> carries \<open>-i\<close>, and \<open>a \<rightarrow> b\<close> carries
  \<open>i\<close> when \<open>a\<close> and \<open>b\<close> differ (for \<open>a = b\<close> the reverse insertion overwrites it).
\<close>
theorem routeGraph_edges:
  assumes "routeGraph r = Inr g"
  shows "(\<forall>u v. v \<in> set (neighbours g u) \<longleftrightarrow> u \<in> set (neighbours g v)) \<and>
         (\<forall>(a, b, i) \<in> set (segmentsOf (mainChildren r)).
            b \<in> set (neighbours g a) \<and> a \<in> set (neighbours g b)) \<and>
         (\<forall>pre a b i post.
            segmentsOf (mainChildren r) = pre @ (a, b, i) # post \<and>
            (\<forall>t \<in> set post. \<not> sameEnds t (a, b, i)) \<longrightarrow>
              edge g b a = Some (''-'' @ i) \<and> (a \<noteq> b \<longrightarrow> edge g a b = Some i))"
proof -
  have g: "g = foldl addSegment [] (segmentsOf (mainChildren r))"
    using assms by (rule routeGraph_InrD)
  have sym: "\<forall>u v. v \<in> set (neighbours g u) \<longleftrightarrow> u \<in> set (neighbours g v)"
    unfolding neighbours_edge g using edge_symmetric by blast
  have pres: "\<forall>(a, b, i) \<in> set (segmentsOf (mainChildren r)).
            b \<in> set (neighbours g a) \<and> a \<in> set (neighbours g b)"
    unfolding neighbours_edge g edge_foldl_defined by blast
  have vals: "\<forall>pre a b i post.
            segmentsOf (mainChildren r) = pre @ (a, b, i) # post \<and>
            (\<forall>t \<in> set post. \<not> sameEnds t (a, b, i)) \<longrightarrow>
              edge g b a = Some (''-'' @ i) \<and> (a \<noteq> b \<longrightarrow> edge g a b = Some i)"
    unfolding g using edge_foldl_last_rev edge_foldl_last_fwd by metis
  show ?thesis using sym pres vals by blast
qed

lemma parallelRoute_graph:
  "routeGraph parallelRoute = Inr [(''A'', [(''B'', ''2'')]), (''B'', [(''A'', ''-2'')])]"
  by (simp add: parallelRoute_def ex_defs)

lemma parallelRoute_segments:
  "segmentsOf (mainChildren parallelRoute) = [(''A'', ''B'', ''1''), (''A'', ''B'', ''2'')]"
  by (simp add: parallelRoute_def exRoute_def exWay_def mainChildren_def children_def stepResult_def)

theorem routeGraph_edges_counterexample:
  "routeGraph parallelRoute = Inr [(''A'', [(''B'', ''2'')]), (''B'', [(''A'', ''-2'')])] \<and>
   (''A'', ''B'', ''1'') \<in> set (segmentsOf (mainChildren parallelRoute)) \<and>
   edge [(''A'', [(''B'', ''2'')]), (''B'', [(''A'', ''-2'')])] ''A'' ''B'' \<noteq> Some ''1'' \<and>
   edge [(''A'', [(''B'', ''2'')]), (''B'', [(''A'', ''-2'')])] ''B'' ''A'' \<noteq> Some ''-1''"
  by (simp add: parallelRoute_graph parallelRoute_segments edge_def map_get_def)

theorem routeGraph_edges_witness:
  "routeGraph parallelRoute = Inr [(''A'', [(''B'', ''2'')]), (''B'', [(''A'', ''-2'')])] \<and>
   edge [(''A'', [(''B'', ''2'')]), (''B'', [(''A'', ''-2'')])] ''B'' ''A'' = Some ''-2'' \<and>
   edge [(''A'', [(''B'', ''2'')]), (''B'', [(''A'', ''-2'')])] ''A'' ''B'' = Some ''2'' \<and>
   ''B'' \<in> set (neighbours [(''A'', [(''B'', ''2'')]), (''B'', [(''A'', ''-2'')])] ''A'')"
proof -
  let ?g = "[(''A'', [(''B'', ''2'')]), (''B'', [(''A'', ''-2'')])]"
  note th = routeGraph_edges [OF parallelRoute_graph]
  have seg: "segmentsOf (mainChildren parallelRoute) = [(''A'', ''B'', ''1'')] @ (''A'', ''B'', ''2'') # [] \<and>
     (\<forall>t \<in> set []. \<not> sameEnds t (''A'', ''B'', ''2''))"
    by (simp add: parallelRoute_segments)
  from th have "\<forall>pre a b i post.
            segmentsOf (mainChildren parallelRoute) = pre @ (a, b, i) # post \<and>
            (\<forall>t \<in> set post. \<not> sameEnds t (a, b, i)) \<longrightarrow>
              edge ?g b a = Some (''-'' @ i) \<and> (a \<noteq> b \<longrightarrow> edge ?g a b = Some i)"
    by blast
  from this seg have "edge ?g ''B'' ''A'' = Some (''-'' @ ''2'') \<and> (''A'' \<noteq> ''B'' \<longrightarrow> edge ?g ''A'' ''B'' = Some ''2'')"
    by blast
  moreover from th have "\<forall>(a, b, i) \<in> set (segmentsOf (mainChildren parallelRoute)).
            b \<in> set (neighbours ?g a) \<and> a \<in> set (neighbours ?g b)"
    by blast
  then have "''B'' \<in> set (neighbours ?g ''A'')"
    by (simp add: parallelRoute_segments)
  ultimately show ?thesis using parallelRoute_graph by simp
qed

lemma buildRouteGraph_members: "buildRouteGraph (r\<lparr>members := ms'\<rparr>) ms = buildRouteGraph r ms"
proof -
  have "superRouteTopologyError (r\<lparr>members := ms'\<rparr>) = superRouteTopologyError r"
    by (simp add: fun_eq_iff superRouteTopologyError_def tagName_def)
  then show ?thesis by (simp add: buildRouteGraph_eq)
qed

text \<open>
  Claim C6, as the code has it. The graph is built from the way members whose
  role is not \<open>alternative\<close>: removing the members of role \<open>alternative\<close> changes
  nothing, every reference in the graph comes from a way member of another role
  with these end nodes, and every way member of another role (\<open>main\<close>, empty or
  anything else) whose end nodes resolve has its edge in the graph.
\<close>
theorem routeGraph_sources:
  "routeGraph r = routeGraph (r\<lparr>members := filter (\<lambda>m. role m \<noteq> ''alternative'') (members r)\<rparr>) \<and>
   (routeGraph r = Inr g \<longrightarrow>
     (\<forall>u v x. edge g u v = Some x \<longrightarrow>
        (\<exists>m \<in> set (members r). mtype m = ''way'' \<and> role m \<noteq> ''alternative'' \<and>
           (\<exists>el. melement m = Some el \<and>
              (el_endNodes el = Inr (u, v) \<and> x = el_id el \<or>
               el_endNodes el = Inr (v, u) \<and> x = ''-'' @ el_id el)))) \<and>
     (\<forall>m \<in> set (members r). \<forall>el a b.
        mtype m = ''way'' \<and> role m \<noteq> ''alternative'' \<and> melement m = Some el \<and>
        el_endNodes el = Inr (a, b) \<longrightarrow> edge g a b \<noteq> None \<and> edge g b a \<noteq> None))"
proof (intro conjI impI)
  have "filter (\<lambda>m. role m \<noteq> ''alternative'') (filter (\<lambda>m. role m \<noteq> ''alternative'') (children r)) =
        filter (\<lambda>m. role m \<noteq> ''alternative'') (children r)"
    by simp
  have "children (r\<lparr>members := filter (\<lambda>m. role m \<noteq> ''alternative'') (members r)\<rparr>) =
        filter (\<lambda>m. role m \<noteq> ''alternative'') (children r)"
    by (simp add: children_def conj_commute)
  then show "routeGraph r = routeGraph (r\<lparr>members := filter (\<lambda>m. role m \<noteq> ''alternative'') (members r)\<rparr>)"
    by (simp add: routeGraph_def buildRouteGraph_members)
next
  assume "routeGraph r = Inr g"
  then have g: "g = foldl addSegment [] (segmentsOf (mainChildren r))"
    by (rule routeGraph_InrD)
  show "\<forall>u v x. edge g u v = Some x \<longrightarrow>
        (\<exists>m \<in> set (members r). mtype m = ''way'' \<and> role m \<noteq> ''alternative'' \<and>
           (\<exists>el. melement m = Some el \<and>
              (el_endNodes el = Inr (u, v) \<and> x = el_id el \<or>
               el_endNodes el = Inr (v, u) \<and> x = ''-'' @ el_id el)))"
  proof (intro allI impI)
    fix u v x
    assume "edge g u v = Some x"
    then have "(u, v, x) \<in> set (segmentsOf (mainChildren r)) \<or>
               (\<exists>i. (v, u, i) \<in> set (segmentsOf (mainChildren r)) \<and> x = ''-'' @ i)"
      unfolding g by (rule edge_foldl_source)
    then show "\<exists>m \<in> set (members r). mtype m = ''way'' \<and> role m \<noteq> ''alternative'' \<and>
           (\<exists>el. melement m = Some el \<and>
              (el_endNodes el = Inr (u, v) \<and> x = el_id el \<or>
               el_endNodes el = Inr (v, u) \<and> x = ''-'' @ el_id el))"
    proof
      assume "(u, v, x) \<in> set (segmentsOf (mainChildren r))"
      from segment_child [OF this] show ?thesis
        using mainChildren_member [of _ r] by blast
    next
      assume "\<exists>i. (v, u, i) \<in> set (segmentsOf (mainChildren r)) \<and> x = ''-'' @ i"
      then obtain i where i: "(v, u, i) \<in> set (segmentsOf (mainChildren r))" and x: "x = ''-'' @ i"
        by blast
      from segment_child [OF i] x show ?thesis
        using mainChildren_member [of _ r] by blast
    qed
  qed
  show "\<forall>m \<in> set (members r). \<forall>el a b.
        mtype m = ''way'' \<and> role m \<noteq> ''alternative'' \<and> melement m = Some el \<and>
        el_endNodes el = Inr (a, b) \<longrightarrow> edge g a b \<noteq> None \<and> edge g b a \<noteq> None"
  proof (intro ballI allI impI)
    fix m el a b
    assume m: "m \<in> set (members r)"
      and h: "mtype m = ''way'' \<and> role m \<noteq> ''alternative'' \<and> melement m = Some el \<and>
        el_endNodes el = Inr (a, b)"
    then have "m \<in> set (mainChildren r)" by (simp add: mainChildren_member)
    then have "(a, b, el_id el) \<in> set (segmentsOf (mainChildren r))"
      using h resolved_child by blast
    then show "edge g a b \<noteq> None \<and> edge g b a \<noteq> None"
      unfolding g edge_foldl_defined by blast
  qed
qed

lemma forwardRoute_graph:
  "routeGraph forwardRoute = Inr [(''A'', [(''B'', ''1'')]), (''B'', [(''A'', ''-1'')])]"
  by (simp add: forwardRoute_def ex_defs)

theorem routeGraph_sources_counterexample:
  "members forwardRoute = [exWay ''1'' ''A'' ''B'' ''forward'', exWay ''2'' ''B'' ''C'' ''alternative''] \<and>
   role (exWay ''1'' ''A'' ''B'' ''forward'') \<noteq> ''main'' \<and>
   routeGraph forwardRoute = Inr [(''A'', [(''B'', ''1'')]), (''B'', [(''A'', ''-1'')])]"
  by (simp add: forwardRoute_graph) (simp add: forwardRoute_def exRoute_def exWay_def)

theorem routeGraph_sources_witness:
  "routeGraph forwardRoute = Inr [(''A'', [(''B'', ''1'')]), (''B'', [(''A'', ''-1'')])] \<and>
   edge [(''A'', [(''B'', ''1'')]), (''B'', [(''A'', ''-1'')])] ''A'' ''B'' \<noteq> None \<and>
   edge [(''A'', [(''B'', ''1'')]), (''B'', [(''A'', ''-1'')])] ''B'' ''C'' = None"
proof -
  let ?g = "[(''A'', [(''B'', ''1'')]), (''B'', [(''A'', ''-1'')])]"
  let ?el = "\<lparr> el_id = ''1'', el_endNodes = Inr (''A'', ''B''),
         el_lineStringFeature = \<lparr> properties = Map.empty, coordinates = [] \<rparr> \<rparr>"
  let ?m = "exWay ''1'' ''A'' ''B'' ''forward''"
  have m: "?m \<in> set (members forwardRoute)"
    and h: "mtype ?m = ''way'' \<and> role ?m \<noteq> ''alternative'' \<and> melement ?m = Some ?el \<and>
        el_endNodes ?el = Inr (''A'', ''B'')"
    by (simp_all add: forwardRoute_def exRoute_def exWay_def)
  from routeGraph_sources [of forwardRoute ?g] forwardRoute_graph
  have "\<forall>m \<in> set (members forwardRoute). \<forall>el a b.
        mtype m = ''way'' \<and> role m \<noteq> ''alternative'' \<and> melement m = Some el \<and>
        el_endNodes el = Inr (a, b) \<longrightarrow> edge ?g a b \<noteq> None \<and> edge ?g b a \<noteq> None"
    by blast
  with m h have "edge ?g ''A'' ''B'' \<noteq> None" by blast
  moreover have "edge ?g ''B'' ''C'' = None" by (simp add: edge_def map_get_def)
  ultimately show ?thesis using forwardRoute_graph by simp
qed

text \<open>
  Claim C10. A route whose only main child is a segment from a node \<open>A\<close> to the same
  node \<open>A\<close>: the graph has the single entry \<open>A \<rightarrow> A\<close>, which carries the reverse-marked
  reference, the route is routable, and \<open>orderedChildIds\<close> is that one reference.
\<close>
theorem selfLoop_single_segment:
  assumes "mainChildren r = [m]" and "melement m = Some el" and "el_endNodes el = Inr (A, A)"
  shows "routeGraph r = Inr [(A, [(A, ''-'' @ el_id el)])] \<and> isRoutable r \<and>
         orderedChildIds r = Some (Inr [''-'' @ el_id el])"
proof -
  have "m \<in> set (mainChildren r)" using assms(1) by simp
  then have "mtype m \<noteq> ''node''" by (rule mainChildren_not_node)
  then have "stepResult m = Resolved (A, A, el_id el)"
    using assms by (simp add: stepResult_Resolved_iff)
  then have g: "routeGraph r = Inr [(A, [(A, ''-'' @ el_id el)])]"
    by (simp add: routeGraph_eq assms(1) addSegment_def insertEndPair_def map_get_def)
  have ro: "isRoutable r"
    by (simp add: isRoutable_graph [OF g] nodesOfDegree_def nodesOfDegree3Plus_def)
  have "orderedChildIds r = Some (Inr [''-'' @ el_id el])"
    by (simp add: orderedChildIds_def ro g orderedChildIdsOf_def)
  then show ?thesis using g ro by simp
qed

theorem selfLoop_single_segment_witness:
  "routeGraph selfLoopRoute = Inr [(''A'', [(''A'', ''-1'')])] \<and> isRoutable selfLoopRoute \<and>
   orderedChildIds selfLoopRoute = Some (Inr [''-1''])"
proof -
  let ?el = "\<lparr> el_id = ''1'', el_endNodes = Inr (''A'', ''A''),
         el_lineStringFeature = \<lparr> properties = Map.empty, coordinates = [] \<rparr> \<rparr>"
  have "mainChildren selfLoopRoute = [exWay ''1'' ''A'' ''A'' ''main'']"
    and "melement (exWay ''1'' ''A'' ''A'' ''main'') = Some ?el"
    and "el_endNodes ?el = Inr (''A'', ''A'')"
    by (simp_all add: selfLoopRoute_def exRoute_def exWay_def mainChildren_def children_def)
  from selfLoop_single_segment [OF this] show ?thesis by simp
qed

text \<open>The doubles of the examples: each of these numbers is a double, and is read as itself.\<close>

lemmas double_eval =
  toDouble_def expo_def pow2_def roundHalfEven_def Let_def bitlen_def compute_floorlog

lemma double_values:
  "toDouble 0 = Num 0" "toDouble 1 = Num 1" "toDouble 2 = Num 2" "toDouble 3 = Num 3"
  "toDouble 5 = Num 5" "toDouble 7 = Num 7" "toDouble 8 = Num 8" "toDouble 10 = Num 10"
  "toDouble 12 = Num 12" "toDouble 15 = Num 15" "toDouble 50 = Num 50"
  "toDouble 100 = Num 100" "toDouble 300 = Num 300" "toDouble 500 = Num 500"
  "toDouble 800 = Num 800" "toDouble (1 / 2) = Num (1 / 2)"
  "dbl (Num 0) = Num 0" "dbl (Num 1) = Num 1" "dbl (Num 2) = Num 2" "dbl (Num 3) = Num 3"
  "dbl (Num 5) = Num 5" "dbl (Num 7) = Num 7" "dbl (Num 8) = Num 8" "dbl (Num 10) = Num 10"
  "dbl (Num 12) = Num 12" "dbl (Num 15) = Num 15" "dbl (Num 50) = Num 50"
  "dbl (Num 100) = Num 100" "dbl (Num 300) = Num 300" "dbl (Num 500) = Num 500"
  "dbl (Num 800) = Num 800" "dbl (Num (1 / 2)) = Num (1 / 2)"
  by (simp_all add: dbl_def double_eval)

lemma round2_100: "times100 (round2 (Num 1)) = Num 100"
proof -
  have "\<lfloor>201 / 2 :: rat\<rfloor> = 100"
    by (simp add: floor_eq_iff)
  then show ?thesis
    by (simp add: times100_def round2_def jmul_def jdiv_def mathRound_def double_values)
qed

lemma round2_50: "times100 (round2 (Num (1 / 2))) = Num 50"
proof -
  have "\<lfloor>101 / 2 :: rat\<rfloor> = 50"
    by (simp add: floor_eq_iff)
  then show ?thesis
    by (simp add: times100_def round2_def jmul_def jdiv_def mathRound_def double_values)
qed

lemma round2_5: "round2 (Num 5) = Num 5"
proof -
  have "\<lfloor>1001 / 2 :: rat\<rfloor> = 500"
    by (simp add: floor_eq_iff)
  then show ?thesis
    by (simp add: round2_def jmul_def jdiv_def mathRound_def double_values)
qed

lemma round2_8: "round2 (Num 8) = Num 8"
proof -
  have "\<lfloor>1601 / 2 :: rat\<rfloor> = 800"
    by (simp add: floor_eq_iff)
  then show ?thesis
    by (simp add: round2_def jmul_def jdiv_def mathRound_def double_values)
qed

lemma taggedFirst_features:
  "featureCollection taggedFirstRoute =
     [exFeature [(''@id'', ''way/1''), (''surface'', ''gravel'')] [[0, 0], [1, 1]],
      exFeature [(''@id'', ''way/2'')] [[1, 1], [2, 2]]]"
  by (simp add: featureCollection_def taggedFirstRoute_def exRoute_def exWayWith_def children_def)

lemma taggedFirst_graph:
  "routeGraph taggedFirstRoute =
     Inr [(''A'', [(''B'', ''1'')]), (''B'', [(''A'', ''-1''), (''C'', ''2'')]), (''C'', [(''B'', ''-2'')])]"
  by (simp add: taggedFirstRoute_def exRoute_def exWayWith_def routeGraph_def children_def
      buildRouteGraph_def buildStep_def insertEndPair_def map_get_def)

lemma taggedFirst_routable: "isRoutable taggedFirstRoute"
  by (simp add: isRoutable_graph [OF taggedFirst_graph] nodesOfDegree_def nodesOfDegree3Plus_def)

lemma taggedFirst_ordered: "orderedChildIds taggedFirstRoute = Some (Inr [''1'', ''2''])"
  by (simp add: orderedChildIds_def taggedFirst_routable taggedFirst_graph orderedChildIdsOf_def
      firstDegreeOne_def getNextNode_def map_get_def map_keys_def walk.simps)

lemma taggedFirst_line:
  "lineStringFeature taggedFirstRoute =
     Some (Inr \<lparr> properties = Map.empty, coordinates = [[0, 0], [1, 1], [2, 2]] \<rparr>)"
proof -
  have "childrenMap taggedFirstRoute =
     [(''1'', exWayWith ''1'' ''A'' ''B'' (exFeature [(''@id'', ''way/1''), (''surface'', ''gravel'')] [[0, 0], [1, 1]])),
      (''2'', exWayWith ''2'' ''B'' ''C'' (exFeature [(''@id'', ''way/2'')] [[1, 1], [2, 2]]))]"
    by (simp add: childrenMap_def map_from_entries_def taggedFirstRoute_def exRoute_def
        children_def exWayWith_def)
  moreover have "rproperties taggedFirstRoute = Map.empty"
    by (simp add: taggedFirstRoute_def exRoute_def)
  ultimately show ?thesis
    by (simp add: lineStringFeature_def orderedFeatureCollection_def taggedFirst_routable
      taggedFirst_ordered childFeature_def isReversed_def map_get_def exWayWith_def exFeature_def)
qed

text \<open>
  Claim C7 at the input where the code departs from it: two segments, the first
  with a \<open>surface\<close> tag and the second without. The running update adds \<open>1 / 1\<close> for
  the first segment, so \<open>surfacePct\<close> is 100, not 50; \<open>surfaceWays\<close> is the identifier of
  the untagged segment.
\<close>

theorem statistics_tagged_first:
  "\<exists>st. statistics turfLength taggedFirstRoute = Some (Inr st) \<and>
        surfacePct st = Num 100 \<and> surfaceWays st = [Some ''way/2'']"
proof -
  let ?t = "foldl (segmentStep turfLength) initialTotals (featureCollection taggedFirstRoute)"
  have "t_surfacePct ?t = jadd (Num 0) (jdiv (Num 1) (Num 1))"
    and ways: "t_surfaceWays ?t = [Some ''way/2'']"
    by (simp_all add: taggedFirst_features segmentStep_def initialTotals_def exFeature_def Let_def)
  then have "times100 (round2 (t_surfacePct ?t)) = Num 100"
    by (simp add: jadd_def jdiv_def double_values round2_100)
  then show ?thesis
    using ways
    by (simp add: statistics_def elevation_def taggedFirst_routable taggedFirst_line Let_def)
qed


lemma taggedFirst_childrenMap:
  "childrenMap taggedFirstRoute =
     [(''1'', exWayWith ''1'' ''A'' ''B'' (exFeature [(''@id'', ''way/1''), (''surface'', ''gravel'')] [[0, 0], [1, 1]])),
      (''2'', exWayWith ''2'' ''B'' ''C'' (exFeature [(''@id'', ''way/2'')] [[1, 1], [2, 2]]))]"
  by (simp add: childrenMap_def map_from_entries_def taggedFirstRoute_def exRoute_def
        children_def exWayWith_def)

lemma star_features: "featureCollection starRoute = [exFeature [] [], exFeature [] [], exFeature [] []]"
  by (simp add: featureCollection_def starRoute_def exRoute_def exWay_def children_def exFeature_def)

lemma star_not_routable: "\<not> isRoutable starRoute"
  by (simp add: isRoutable_graph [OF starRoute_graph] nodesOfDegree3Plus_def)

text \<open>
  Claim C8 at the inputs where the code departs from it: a routable route whose
  coordinates have two components, and a route that is not routable. The final
  rounding assigns \<open>round(undefined)\<close> to \<open>ascent\<close> and \<open>descent\<close>, so both are present with
  the value \<open>NaN\<close> instead of absent.
\<close>

theorem statistics_ascent_NaN:
  "(\<exists>st. statistics turfLength taggedFirstRoute = Some (Inr st) \<and>
         ascent st = Some NaN \<and> descent st = Some NaN) \<and>
   (\<exists>st. statistics turfLength starRoute = Some (Inr st) \<and>
         ascent st = Some NaN \<and> descent st = Some NaN)"
  by (simp add: statistics_def elevation_def taggedFirst_routable taggedFirst_line
      star_not_routable round2_opt_def Let_def)

text \<open>
  Where the two claims about \<open>statistics\<close> do hold: with the untagged segment first
  the running update adds \<open>1 / 2\<close> and \<open>surfacePct\<close> is 50; on a routable route with
  elevations (10, 15, 15, 12, 7 along the line) the ascent is 5 and the descent 8.
\<close>

lemma untaggedFirst_elevation:
  "map_option (map_sum id coordinates) (lineStringFeature untaggedFirstRoute) =
     Some (Inr [[2, 2], [1, 1], [0, 0]]) \<and>
   elevation untaggedFirstRoute = Some (Inr (None, None))"
  by code_simp

lemma statistics_untagged_first:
  "map_option (map_sum id (\<lambda>st. (surfacePct st, surfaceWays st)))
       (statistics (\<lambda>f. 0) untaggedFirstRoute) =
     Some (Inr (Num 50, [Some ''way/2'']))"
proof -
  let ?t = "foldl (segmentStep (\<lambda>f. 0)) initialTotals (featureCollection untaggedFirstRoute)"
  have "featureCollection untaggedFirstRoute =
     [exFeature [(''@id'', ''way/2'')] [[1, 1], [2, 2]],
      exFeature [(''@id'', ''way/1''), (''surface'', ''gravel'')] [[0, 0], [1, 1]]]"
    by (simp add: featureCollection_def untaggedFirstRoute_def exRoute_def exWayWith_def children_def)
  then have "t_surfacePct ?t = jadd (Num 0) (jdiv (Num 1) (Num 2))"
    and ways: "t_surfaceWays ?t = [Some ''way/2'']"
    by (simp_all add: segmentStep_def initialTotals_def exFeature_def Let_def)
  then have "times100 (round2 (t_surfacePct ?t)) = Num 50"
    by (simp add: jadd_def jdiv_def double_values round2_50)
  then show ?thesis
    using ways
    by (simp add: statistics_def untaggedFirst_elevation Let_def)
qed

lemma climb_line:
  "isRoutable climbRoute \<and>
   map_option (map_sum id coordinates) (lineStringFeature climbRoute) =
     Some (Inr [[0, 0, 10], [1, 1, 15], [2, 2, 15], [3, 3, 12], [4, 4, 7]])"
  by code_simp

lemma climb_elevation: "elevation climbRoute = Some (Inr (Some (Num 5), Some (Num 8)))"
proof -
  have "climb [[0, 0, 10], [1, 1, 15], [2, 2, 15], [3, 3, 12], [4, 4, 7]] (Num 0, Num 0) =
      (Num 5, Num 8)"
    by (simp add: jless_def jadd_def jsub_def double_values numeral_2_eq_2)
  moreover obtain line where "lineStringFeature climbRoute = Some (Inr line)"
    and "coordinates line = [[0, 0, 10], [1, 1, 15], [2, 2, 15], [3, 3, 12], [4, 4, 7]]"
    using climb_line by (cases "lineStringFeature climbRoute") (auto simp add: map_sum_def split: sum.splits)
  ultimately show ?thesis
    using climb_line by (simp add: elevation_def)
qed

lemma statistics_climb:
  "map_option (map_sum id (\<lambda>st. (ascent st, descent st))) (statistics (\<lambda>f. 0) climbRoute) =
     Some (Inr (Some (Num 5), Some (Num 8)))"
  by (simp add: statistics_def climb_elevation Let_def round2_opt_def round2_5 round2_8)

section \<open>The path orderer on simple paths and cycles\<close>

subsection \<open>Structure of a built graph\<close>

lemma distinct_map_set: "distinct (map fst m) \<Longrightarrow> distinct (map fst (map_set k v m))"
  by (simp add: keys_map_set)

lemma set_map_set: "x \<in> set (map_set k v m) \<Longrightarrow> x = (k, v) \<or> x \<in> set m"
  by (induction m) (auto split: if_splits)

lemma map_get_None_iff: "map_get m k = None \<longleftrightarrow> k \<notin> set (map fst m)"
  by (simp add: map_get_def map_of_eq_None_iff)

lemma map_get_entry: "distinct (map fst m) \<Longrightarrow> (k, v) \<in> set m \<Longrightarrow> map_get m k = Some v"
  by (simp add: map_get_def)

lemma map_get_SomeD: "map_get m k = Some v \<Longrightarrow> (k, v) \<in> set m"
  by (simp add: map_get_def map_of_SomeD)

lemma keys_insertEndPair:
  "map fst (insertEndPair g (a, b, r)) =
     (if a \<in> set (map fst g) then map fst g else map fst g @ [a])"
proof (cases "map_get g a")
  case None
  then have "a \<notin> set (map fst g)" by (simp add: map_get_None_iff)
  then show ?thesis using None by (simp add: insertEndPair_def keys_map_set)
next
  case (Some nb)
  then have "a \<in> set (map fst g)" using map_get_None_iff [of g a] by simp
  then show ?thesis using Some by (simp add: insertEndPair_def keys_map_set)
qed

lemma wellFormed_insertEndPair:
  assumes "wellFormed g"
  shows "wellFormed (insertEndPair g (a, b, r))"
proof -
  have d: "distinct (map fst (insertEndPair g (a, b, r)))"
    using assms by (simp add: keys_insertEndPair wellFormed_def)
  have "distinct (map fst nb)" if "(n, nb) \<in> set (insertEndPair g (a, b, r))" for n nb
  proof (cases "map_get g a")
    case None
    with that have "(n, nb) = (a, [(b, r)]) \<or> (n, nb) \<in> set g"
      by (auto simp add: insertEndPair_def dest: set_map_set)
    then show ?thesis using assms by (auto simp add: wellFormed_def)
  next
    case (Some nb0)
    with that have "(n, nb) = (a, map_set b r nb0) \<or> (n, nb) \<in> set g"
      by (auto simp add: insertEndPair_def dest: set_map_set)
    moreover have "distinct (map fst nb0)"
      using map_get_SomeD [OF Some] assms by (auto simp add: wellFormed_def)
    ultimately show ?thesis using assms by (auto simp add: wellFormed_def distinct_map_set)
  qed
  then show ?thesis using d by (auto simp add: wellFormed_def)
qed

lemma wellFormed_addSegment: "wellFormed g \<Longrightarrow> wellFormed (addSegment g s)"
  by (cases s) (simp add: addSegment_def wellFormed_insertEndPair)

lemma wellFormed_foldl: "wellFormed g \<Longrightarrow> wellFormed (foldl addSegment g ss)"
  by (induction ss arbitrary: g) (simp_all add: wellFormed_addSegment)

lemma wellFormed_built: "wellFormed (foldl addSegment [] ss)"
  by (rule wellFormed_foldl) (simp add: wellFormed_def)

lemma keys_addSegment:
  "set (map fst (addSegment g (a, b, i))) = set (map fst g) \<union> {a, b}"
  by (auto simp add: addSegment_def keys_insertEndPair)

lemma keys_foldl:
  "set (map fst (foldl addSegment g ss)) =
     set (map fst g) \<union> {a. \<exists>b i. (a, b, i) \<in> set ss} \<union> {b. \<exists>a i. (a, b, i) \<in> set ss}"
proof (induction ss arbitrary: g)
  case Nil
  show ?case by simp
next
  case (Cons s ss)
  obtain a b i where s: "s = (a, b, i)" by (cases s)
  show ?case unfolding s foldl_Cons Cons.IH keys_addSegment by auto
qed

lemma keys_built:
  "v \<in> set (map fst (foldl addSegment [] ss)) \<longleftrightarrow>
     (\<exists>u i. (v, u, i) \<in> set ss \<or> (u, v, i) \<in> set ss)"
  unfolding keys_foldl by auto

lemma neighbours_entry:
  "wellFormed g \<Longrightarrow> (n, nb) \<in> set g \<Longrightarrow> neighbours g n = map fst nb"
  by (simp add: neighbours_def map_get_entry wellFormed_def map_keys_def)

lemma distinct_neighbours: "wellFormed g \<Longrightarrow> distinct (neighbours g n)"
proof (cases "map_get g n")
  case None
  then show ?thesis by (simp add: neighbours_def)
next
  case (Some nb)
  assume "wellFormed g"
  then have "distinct (map fst nb)"
    using map_get_SomeD [OF Some] by (auto simp add: wellFormed_def)
  then show ?thesis using Some by (simp add: neighbours_def map_keys_def)
qed

lemma neighbours_built:
  "v \<in> set (neighbours (foldl addSegment [] ss) u) \<longleftrightarrow>
     (\<exists>i. (u, v, i) \<in> set ss \<or> (v, u, i) \<in> set ss)"
  unfolding neighbours_edge edge_foldl_defined ..

lemma headShape_insertEndPair:
  assumes "headShape g a b"
  shows "headShape (insertEndPair g (a', b', r')) a b"
proof -
  from assms obtain x nb g' where g: "g = (a, (b, x) # nb) # g'"
    unfolding headShape_def by blast
  show ?thesis
  proof (cases "a' = a")
    case True
    then have "insertEndPair g (a', b', r') = (a, map_set b' r' ((b, x) # nb)) # g'"
      by (simp add: g insertEndPair_def map_get_def)
    moreover have "\<exists>y nb'. map_set b' r' ((b, x) # nb) = (b, y) # nb'"
      by (cases "b = b'") simp_all
    ultimately show ?thesis unfolding headShape_def by auto
  next
    case False
    then have "\<exists>g''. insertEndPair g (a', b', r') = (a, (b, x) # nb) # g''"
      by (cases "map_of g' a'") (simp_all add: g insertEndPair_def map_get_def)
    then show ?thesis unfolding headShape_def by blast
  qed
qed

lemma headShape_addSegment: "headShape g a b \<Longrightarrow> headShape (addSegment g s) a b"
  by (cases s) (simp add: addSegment_def headShape_insertEndPair)

lemma headShape_foldl: "headShape g a b \<Longrightarrow> headShape (foldl addSegment g ss) a b"
  by (induction ss arbitrary: g) (simp_all add: headShape_addSegment)

lemma headShape_built:
  assumes "a \<noteq> b"
  shows "headShape (foldl addSegment [] ((a, b, i) # ss)) a b"
proof -
  have "addSegment [] (a, b, i) = [(a, [(b, i)]), (b, [(a, ''-'' @ i)])]"
    using assms by (simp add: addSegment_def insertEndPair_def map_get_def)
  then have "headShape (addSegment [] (a, b, i)) a b"
    by (simp add: headShape_def)
  then show ?thesis by (simp add: headShape_foldl)
qed

subsection \<open>Oriented chains of segments\<close>

lemma edge_unique:
  assumes "uniqueEnds ss" and "(a, b, i) \<in> set ss"
  shows "edge (foldl addSegment [] ss) b a = Some (''-'' @ i)"
    and "a \<noteq> b \<Longrightarrow> edge (foldl addSegment [] ss) a b = Some i"
proof -
  from split_list_last [OF assms(2)]
  obtain pre post where ss: "ss = pre @ (a, b, i) # post" and notin: "(a, b, i) \<notin> set post"
    by blast
  have "\<forall>t \<in> set post. \<not> sameEnds t (a, b, i)"
  proof
    fix t assume t: "t \<in> set post"
    then have "t \<in> set ss" by (simp add: ss)
    with assms have "sameEnds t (a, b, i) \<longrightarrow> t = (a, b, i)"
      unfolding uniqueEnds_def by blast
    with t notin show "\<not> sameEnds t (a, b, i)" by blast
  qed
  then show "edge (foldl addSegment [] ss) b a = Some (''-'' @ i)"
    and "a \<noteq> b \<Longrightarrow> edge (foldl addSegment [] ss) a b = Some i"
    unfolding ss by (rule edge_foldl_last_rev, rule edge_foldl_last_fwd)
qed

lemma edge_oriented:
  assumes "uniqueEnds ss" and "fst x \<in> set ss" and "ostart x \<noteq> oend x"
  shows "edge (foldl addSegment [] ss) (ostart x) (oend x) = Some (oref x)"
proof -
  obtain a b i f where x: "x = ((a, b, i), f)" by (cases x) auto
  from assms(2) have m: "(a, b, i) \<in> set ss" by (simp add: x)
  show ?thesis
  proof (cases f)
    case True
    then show ?thesis using edge_unique(1) [OF assms(1) m] by (simp add: x)
  next
    case False
    with assms(3) have "a \<noteq> b" by (simp add: x)
    from edge_unique(2) [OF assms(1) m this] False show ?thesis by (simp add: x)
  qed
qed

lemma chained_nth:
  "chained os \<Longrightarrow> Suc k < length os \<Longrightarrow> oend (os ! k) = ostart (os ! Suc k)"
proof (induction os arbitrary: k rule: chained.induct)
  case (1 x y os)
  then show ?case by (cases k) simp_all
qed simp_all

lemma length_pathNodes: "os \<noteq> [] \<Longrightarrow> length (pathNodes os) = Suc (length os)"
  by (cases os) (simp_all add: pathNodes_def)

lemma pathNodes_Cons: "os \<noteq> [] \<Longrightarrow> pathNodes os = ostart (hd os) # map oend os"
  by (cases os) (simp_all add: pathNodes_def)

lemma pathNodes_Suc:
  assumes "k < length os"
  shows "pathNodes os ! Suc k = oend (os ! k)"
proof -
  from assms have "os \<noteq> []" by auto
  then have "pathNodes os ! Suc k = map oend os ! k"
    by (simp add: pathNodes_Cons)
  then show ?thesis using assms by (simp only: nth_map)
qed

lemma pathNodes_nth: "chained os \<Longrightarrow> k < length os \<Longrightarrow> pathNodes os ! k = ostart (os ! k)"
proof (cases k)
  case 0
  assume "k < length os"
  then show ?thesis using 0 by (cases os) (simp_all add: pathNodes_def)
next
  case (Suc j)
  assume c: "chained os" and k: "k < length os"
  then have "pathNodes os ! Suc j = oend (os ! j)" using Suc by (simp add: pathNodes_Suc)
  also have "\<dots> = ostart (os ! Suc j)" using c k Suc by (simp add: chained_nth)
  finally show ?thesis using Suc by simp
qed

lemma segment_ends_oriented:
  "(\<exists>i. (u, v, i) \<in> fst ` set os \<or> (v, u, i) \<in> fst ` set os) \<longleftrightarrow>
     (\<exists>x \<in> set os. (ostart x = u \<and> oend x = v) \<or> (ostart x = v \<and> oend x = u))"
proof
  assume "\<exists>i. (u, v, i) \<in> fst ` set os \<or> (v, u, i) \<in> fst ` set os"
  then obtain i where "(u, v, i) \<in> fst ` set os \<or> (v, u, i) \<in> fst ` set os" by blast
  then show "\<exists>x \<in> set os. (ostart x = u \<and> oend x = v) \<or> (ostart x = v \<and> oend x = u)"
  proof
    assume "(u, v, i) \<in> fst ` set os"
    then obtain f where "((u, v, i), f) \<in> set os" by force
    moreover have "(ostart ((u, v, i), f) = u \<and> oend ((u, v, i), f) = v) \<or>
                   (ostart ((u, v, i), f) = v \<and> oend ((u, v, i), f) = u)"
      by (cases f) simp_all
    ultimately show ?thesis by blast
  next
    assume "(v, u, i) \<in> fst ` set os"
    then obtain f where "((v, u, i), f) \<in> set os" by force
    moreover have "(ostart ((v, u, i), f) = u \<and> oend ((v, u, i), f) = v) \<or>
                   (ostart ((v, u, i), f) = v \<and> oend ((v, u, i), f) = u)"
      by (cases f) simp_all
    ultimately show ?thesis by blast
  qed
next
  assume "\<exists>x \<in> set os. (ostart x = u \<and> oend x = v) \<or> (ostart x = v \<and> oend x = u)"
  then obtain x where x: "x \<in> set os"
    and e: "(ostart x = u \<and> oend x = v) \<or> (ostart x = v \<and> oend x = u)" by blast
  obtain a b i f where xe: "x = ((a, b, i), f)" by (cases x) auto
  have "(a, b, i) \<in> fst ` set os" using x xe by force
  moreover from e have "(a = u \<and> b = v) \<or> (a = v \<and> b = u)"
    unfolding xe by (cases f) auto
  ultimately show "\<exists>i. (u, v, i) \<in> fst ` set os \<or> (v, u, i) \<in> fst ` set os" by blast
qed

lemma oriented_adjacent:
  assumes "chained os"
  shows "(\<exists>x \<in> set os. (ostart x = u \<and> oend x = v) \<or> (ostart x = v \<and> oend x = u)) \<longleftrightarrow>
         adjacentIn (pathNodes os) u v"
proof (cases "os = []")
  case True
  then show ?thesis by (simp add: adjacentIn_def pathNodes_def)
next
  case False
  have len: "length (pathNodes os) = Suc (length os)" using False by (rule length_pathNodes)
  have "(\<exists>x \<in> set os. (ostart x = u \<and> oend x = v) \<or> (ostart x = v \<and> oend x = u)) \<longleftrightarrow>
        (\<exists>k < length os. (ostart (os ! k) = u \<and> oend (os ! k) = v) \<or>
                         (ostart (os ! k) = v \<and> oend (os ! k) = u))"
  proof
    assume "\<exists>x \<in> set os. (ostart x = u \<and> oend x = v) \<or> (ostart x = v \<and> oend x = u)"
    then obtain x where "x \<in> set os"
      and e: "(ostart x = u \<and> oend x = v) \<or> (ostart x = v \<and> oend x = u)" by blast
    then obtain k where "k < length os" and "os ! k = x" unfolding in_set_conv_nth by blast
    with e show "\<exists>k < length os. (ostart (os ! k) = u \<and> oend (os ! k) = v) \<or>
                         (ostart (os ! k) = v \<and> oend (os ! k) = u)" by blast
  next
    assume "\<exists>k < length os. (ostart (os ! k) = u \<and> oend (os ! k) = v) \<or>
                         (ostart (os ! k) = v \<and> oend (os ! k) = u)"
    then obtain k where k: "k < length os"
      and e: "(ostart (os ! k) = u \<and> oend (os ! k) = v) \<or>
                         (ostart (os ! k) = v \<and> oend (os ! k) = u)" by blast
    from k have "os ! k \<in> set os" by (rule nth_mem)
    with e show "\<exists>x \<in> set os. (ostart x = u \<and> oend x = v) \<or> (ostart x = v \<and> oend x = u)"
      by blast
  qed
  also have "\<dots> \<longleftrightarrow> (\<exists>k < length os. (pathNodes os ! k = u \<and> pathNodes os ! Suc k = v) \<or>
                         (pathNodes os ! k = v \<and> pathNodes os ! Suc k = u))"
    using pathNodes_nth [OF assms] pathNodes_Suc [of _ os] by auto
  also have "\<dots> \<longleftrightarrow> adjacentIn (pathNodes os) u v"
    unfolding adjacentIn_def len by auto
  finally show ?thesis .
qed

lemma neighbours_chain:
  assumes "set ss = fst ` set os" and "chained os"
  shows "v \<in> set (neighbours (foldl addSegment [] ss) u) \<longleftrightarrow> adjacentIn (pathNodes os) u v"
  unfolding neighbours_built assms(1) segment_ends_oriented oriented_adjacent [OF assms(2)] ..

lemma keys_chain:
  assumes "set ss = fst ` set os" and "chained os" and "os \<noteq> []"
  shows "set (map fst (foldl addSegment [] ss)) = set (pathNodes os)"
proof -
  have "v \<in> set (map fst (foldl addSegment [] ss)) \<longleftrightarrow> v \<in> set (pathNodes os)" for v
  proof -
    have "v \<in> set (map fst (foldl addSegment [] ss)) \<longleftrightarrow>
          (\<exists>u. \<exists>i. (v, u, i) \<in> fst ` set os \<or> (u, v, i) \<in> fst ` set os)"
      unfolding keys_built assms(1) by blast
    also have "\<dots> \<longleftrightarrow> (\<exists>u. adjacentIn (pathNodes os) v u)"
      unfolding segment_ends_oriented oriented_adjacent [OF assms(2)] ..
    also have "\<dots> \<longleftrightarrow> v \<in> set (pathNodes os)"
    proof
      assume "\<exists>u. adjacentIn (pathNodes os) v u"
      then obtain u k where "Suc k < length (pathNodes os)"
        and "(pathNodes os ! k = v \<and> pathNodes os ! Suc k = u) \<or>
             (pathNodes os ! k = u \<and> pathNodes os ! Suc k = v)"
        unfolding adjacentIn_def by blast
      moreover from this have "pathNodes os ! k \<in> set (pathNodes os)"
        and "pathNodes os ! Suc k \<in> set (pathNodes os)"
        by (simp_all only: nth_mem Suc_lessD)
      ultimately show "v \<in> set (pathNodes os)" by blast
    next
      assume "v \<in> set (pathNodes os)"
      then obtain k where k: "k < length (pathNodes os)" and v: "pathNodes os ! k = v"
        unfolding in_set_conv_nth by blast
      have len: "length (pathNodes os) = Suc (length os)" using assms(3) by (rule length_pathNodes)
      have pos: "0 < length os" using assms(3) by simp
      show "\<exists>u. adjacentIn (pathNodes os) v u"
      proof (cases "Suc k < length (pathNodes os)")
        case True
        then show ?thesis unfolding adjacentIn_def using v by blast
      next
        case False
        with k len have kl: "k = length os" by simp
        from pos obtain j where "length os = Suc j" using gr0_implies_Suc by blast
        with kl have j: "k = Suc j" by simp
        then have "Suc j < length (pathNodes os)" using k by simp
        then show ?thesis unfolding adjacentIn_def using v j by blast
      qed
    qed
    finally show ?thesis .
  qed
  then show ?thesis by blast
qed

subsection \<open>Node lists of simple paths and cycles\<close>

lemma distinct_nth_eq:
  "distinct ws \<Longrightarrow> i < length ws \<Longrightarrow> j < length ws \<Longrightarrow> ws ! i = ws ! j \<Longrightarrow> i = j"
  by (simp add: nth_eq_iff_index_eq)

lemma cycleLike_length: "cycleLike ws \<Longrightarrow> 4 \<le> length ws"
  by (simp add: cycleLike_def)

lemma cycleLike_nth_eq:
  assumes "cycleLike ws" and "i < length ws - 1" and "j < length ws - 1" and "ws ! i = ws ! j"
  shows "i = j"
proof -
  have "butlast ws ! i = butlast ws ! j"
    using assms(2,3,4) by (simp add: nth_butlast)
  moreover have "distinct (butlast ws)" using assms(1) by (simp add: cycleLike_def)
  ultimately show ?thesis using assms(2,3) by (simp add: nth_eq_iff_index_eq)
qed

lemma cycleLike_last:
  assumes "cycleLike ws"
  shows "ws ! (length ws - 1) = ws ! 0"
proof -
  from assms have ne: "ws \<noteq> []" and "last ws = hd ws" by (auto simp add: cycleLike_def)
  then show ?thesis by (simp add: last_conv_nth hd_conv_nth)
qed

lemma interior_unique:
  assumes "pathLike ws \<or> cycleLike ws"
    and "0 < m" and "Suc m < length ws" and "j < length ws" and "ws ! j = ws ! m"
  shows "j = m"
  using assms(1)
proof
  assume "pathLike ws"
  then have "distinct ws" by (simp add: pathLike_def)
  then show ?thesis using distinct_nth_eq [of ws j m] assms(3,4,5) by simp
next
  assume c: "cycleLike ws"
  show ?thesis
  proof (cases "j < length ws - 1")
    case True
    then show ?thesis using cycleLike_nth_eq [OF c True _ assms(5)] assms(3) by simp
  next
    case False
    with assms(4) have "j = length ws - 1" by simp
    then have "ws ! 0 = ws ! m" using cycleLike_last [OF c] assms(5) by simp
    then have "0 = m" using cycleLike_nth_eq [OF c _ _ \<open>ws ! 0 = ws ! m\<close>] assms(3) by simp
    with assms(2) show ?thesis by simp
  qed
qed

lemma skip_distinct:
  assumes "pathLike ws \<or> cycleLike ws" and "Suc (Suc j) < length ws"
  shows "ws ! j \<noteq> ws ! Suc (Suc j)"
  using assms(1)
proof
  assume "pathLike ws"
  then have "distinct ws" by (simp add: pathLike_def)
  then show ?thesis using distinct_nth_eq [of ws j "Suc (Suc j)"] assms(2) by auto
next
  assume c: "cycleLike ws"
  show ?thesis
  proof
    assume eq: "ws ! j = ws ! Suc (Suc j)"
    show False
    proof (cases "Suc (Suc j) < length ws - 1")
      case True
      then show False using cycleLike_nth_eq [OF c _ True eq] by simp
    next
      case False
      with assms(2) have l: "Suc (Suc j) = length ws - 1" by simp
      then have "ws ! j = ws ! 0" using eq cycleLike_last [OF c] by simp
      then have "j = 0" using cycleLike_nth_eq [OF c _ _ \<open>ws ! j = ws ! 0\<close>] l by simp
      with l cycleLike_length [OF c] show False by simp
    qed
  qed
qed

lemma consecutive_distinct:
  assumes "pathLike ws \<or> cycleLike ws" and "Suc j < length ws"
  shows "ws ! j \<noteq> ws ! Suc j"
  using assms(1)
proof
  assume "pathLike ws"
  then have "distinct ws" by (simp add: pathLike_def)
  then show ?thesis using distinct_nth_eq [of ws j "Suc j"] assms(2) by auto
next
  assume c: "cycleLike ws"
  show ?thesis
  proof
    assume eq: "ws ! j = ws ! Suc j"
    show False
    proof (cases "Suc j < length ws - 1")
      case True
      then show False using cycleLike_nth_eq [OF c _ True eq] by simp
    next
      case False
      with assms(2) have l: "Suc j = length ws - 1" by simp
      then have "ws ! j = ws ! 0" using eq cycleLike_last [OF c] by simp
      then have "j = 0" using cycleLike_nth_eq [OF c _ _ \<open>ws ! j = ws ! 0\<close>] l by simp
      with l cycleLike_length [OF c] show False by simp
    qed
  qed
qed

lemma adjacent_interior:
  assumes "pathLike ws \<or> cycleLike ws" and "0 < m" and "Suc m < length ws"
  shows "adjacentIn ws (ws ! m) v \<longleftrightarrow> v = ws ! (m - 1) \<or> v = ws ! Suc m"
proof
  assume "adjacentIn ws (ws ! m) v"
  then obtain k where k: "Suc k < length ws"
    and e: "(ws ! k = ws ! m \<and> ws ! Suc k = v) \<or> (ws ! k = v \<and> ws ! Suc k = ws ! m)"
    unfolding adjacentIn_def by blast
  from e show "v = ws ! (m - 1) \<or> v = ws ! Suc m"
  proof
    assume h: "ws ! k = ws ! m \<and> ws ! Suc k = v"
    then have "k = m" using interior_unique [OF assms(1,2,3), of k] k by simp
    with h show ?thesis by simp
  next
    assume h: "ws ! k = v \<and> ws ! Suc k = ws ! m"
    then have "Suc k = m" using interior_unique [OF assms(1,2,3), of "Suc k"] k by simp
    with h show ?thesis by auto
  qed
next
  assume "v = ws ! (m - 1) \<or> v = ws ! Suc m"
  then show "adjacentIn ws (ws ! m) v"
  proof
    assume v: "v = ws ! (m - 1)"
    from assms(2) obtain k where m: "m = Suc k" using gr0_implies_Suc by blast
    then have "Suc k < length ws" using assms(3) by simp
    moreover have "ws ! k = v \<and> ws ! Suc k = ws ! m" using v m by simp
    ultimately show ?thesis unfolding adjacentIn_def by blast
  next
    assume v: "v = ws ! Suc m"
    then show ?thesis unfolding adjacentIn_def using assms(3) by blast
  qed
qed

lemma adjacent_first:
  assumes "pathLike ws"
  shows "adjacentIn ws (ws ! 0) v \<longleftrightarrow> v = ws ! Suc 0"
proof
  from assms have d: "distinct ws" and l: "2 \<le> length ws" by (simp_all add: pathLike_def)
  assume "adjacentIn ws (ws ! 0) v"
  then obtain k where k: "Suc k < length ws"
    and e: "(ws ! k = ws ! 0 \<and> ws ! Suc k = v) \<or> (ws ! k = v \<and> ws ! Suc k = ws ! 0)"
    unfolding adjacentIn_def by blast
  from e show "v = ws ! Suc 0"
  proof
    assume h: "ws ! k = ws ! 0 \<and> ws ! Suc k = v"
    have z: "0 < length ws" using k by auto
    from h have "ws ! k = ws ! 0" by simp
    from distinct_nth_eq [OF d _ z this] k have "k = 0" by simp
    with h show ?thesis by simp
  next
    assume h: "ws ! k = v \<and> ws ! Suc k = ws ! 0"
    have z: "0 < length ws" using k by auto
    from h have "ws ! Suc k = ws ! 0" by simp
    from distinct_nth_eq [OF d k z this] have "Suc k = 0" .
    then show ?thesis by simp
  qed
next
  from assms have l: "2 \<le> length ws" by (simp add: pathLike_def)
  assume "v = ws ! Suc 0"
  moreover have "Suc 0 < length ws" using l by simp
  ultimately show "adjacentIn ws (ws ! 0) v" unfolding adjacentIn_def by blast
qed

lemma adjacent_last:
  assumes "pathLike ws"
  shows "adjacentIn ws (ws ! (length ws - 1)) v \<longleftrightarrow> v = ws ! (length ws - 2)"
proof
  from assms have d: "distinct ws" and l: "2 \<le> length ws" by (simp_all add: pathLike_def)
  assume "adjacentIn ws (ws ! (length ws - 1)) v"
  then obtain k where k: "Suc k < length ws"
    and e: "(ws ! k = ws ! (length ws - 1) \<and> ws ! Suc k = v) \<or>
            (ws ! k = v \<and> ws ! Suc k = ws ! (length ws - 1))"
    unfolding adjacentIn_def by blast
  from e show "v = ws ! (length ws - 2)"
  proof
    assume h: "ws ! k = ws ! (length ws - 1) \<and> ws ! Suc k = v"
    then have "k = length ws - 1" using distinct_nth_eq [OF d, of k "length ws - 1"] k by simp
    with k show ?thesis by simp
  next
    assume h: "ws ! k = v \<and> ws ! Suc k = ws ! (length ws - 1)"
    then have "Suc k = length ws - 1"
      using distinct_nth_eq [OF d, of "Suc k" "length ws - 1"] k by simp
    then have "k = length ws - 2" by simp
    with h show ?thesis by simp
  qed
next
  from assms have l: "2 \<le> length ws" by (simp add: pathLike_def)
  assume v: "v = ws ! (length ws - 2)"
  have "Suc (length ws - 2) < length ws" and "Suc (length ws - 2) = length ws - 1"
    using l by simp_all
  then show "adjacentIn ws (ws ! (length ws - 1)) v"
    unfolding adjacentIn_def using v by metis
qed

lemma adjacent_cycle_first:
  assumes "cycleLike ws"
  shows "adjacentIn ws (ws ! 0) v \<longleftrightarrow> v = ws ! Suc 0 \<or> v = ws ! (length ws - 2)"
proof
  from assms have l: "4 \<le> length ws" by (simp add: cycleLike_def)
  assume "adjacentIn ws (ws ! 0) v"
  then obtain k where k: "Suc k < length ws"
    and e: "(ws ! k = ws ! 0 \<and> ws ! Suc k = v) \<or> (ws ! k = v \<and> ws ! Suc k = ws ! 0)"
    unfolding adjacentIn_def by blast
  from e show "v = ws ! Suc 0 \<or> v = ws ! (length ws - 2)"
  proof
    assume h: "ws ! k = ws ! 0 \<and> ws ! Suc k = v"
    then have "k = 0" using cycleLike_nth_eq [OF assms, of k 0] k l by simp
    with h show ?thesis by simp
  next
    assume h: "ws ! k = v \<and> ws ! Suc k = ws ! 0"
    have "Suc k = length ws - 1"
    proof (rule ccontr)
      assume "Suc k \<noteq> length ws - 1"
      with k have "Suc k < length ws - 1" by simp
      then have "Suc k = 0" using cycleLike_nth_eq [OF assms, of "Suc k" 0] h l by simp
      then show False by simp
    qed
    then have "k = length ws - 2" by simp
    with h show ?thesis by simp
  qed
next
  from assms have l: "4 \<le> length ws" by (simp add: cycleLike_def)
  assume "v = ws ! Suc 0 \<or> v = ws ! (length ws - 2)"
  then show "adjacentIn ws (ws ! 0) v"
  proof
    assume "v = ws ! Suc 0"
    moreover have "Suc 0 < length ws" using l by simp
    ultimately show ?thesis unfolding adjacentIn_def by blast
  next
    assume v: "v = ws ! (length ws - 2)"
    have "Suc (length ws - 2) < length ws" and "Suc (length ws - 2) = length ws - 1"
      using l by simp_all
    moreover have "ws ! (length ws - 1) = ws ! 0" using assms by (rule cycleLike_last)
    ultimately show ?thesis unfolding adjacentIn_def using v by metis
  qed
qed

subsection \<open>One step of the walk\<close>

lemma edge_SomeD: "edge g u v = Some x \<Longrightarrow> \<exists>nb. map_get g u = Some nb \<and> map_get nb v = Some x"
  by (cases "map_get g u") (simp_all add: edge_def)

lemma walk_done: "walk g p c None e acc = Some (Inr acc)"
  by (subst walk.simps) simp

lemma walk_step:
  assumes "edge g c n = Some x" and "getNextNode g n c = Inr nx"
  shows "walk g p c (Some n) e acc =
           (if n = e \<and> c \<noteq> ''-1'' then Some (Inr (acc @ [x])) else walk g c n nx e (acc @ [x]))"
proof -
  from edge_SomeD [OF assms(1)] obtain nb
    where "map_get g c = Some nb" and "map_get nb n = Some x" by blast
  then show ?thesis using assms(2) by (subst walk.simps) simp
qed

lemma walk_along:
  assumes edges: "\<And>j. Suc j < length ws \<Longrightarrow> edge g (ws ! j) (ws ! Suc j) = Some (rs ! j)"
    and nexts: "\<And>j. Suc (Suc j) < length ws \<Longrightarrow>
                  getNextNode g (ws ! Suc j) (ws ! j) = Inr (Some (ws ! Suc (Suc j)))"
    and nobreak: "\<And>j. Suc (Suc j) < length ws \<Longrightarrow> ws ! Suc j \<noteq> e"
    and final: "\<exists>x. getNextNode g (ws ! (length ws - 1)) (ws ! (length ws - 2)) = Inr x \<and>
                  (x = None \<or> (ws ! (length ws - 1) = e \<and> ws ! (length ws - 2) \<noteq> ''-1''))"
    and len: "length rs = length ws - 1"
  shows "Suc k < length ws \<Longrightarrow>
           walk g p (ws ! k) (Some (ws ! Suc k)) e acc = Some (Inr (acc @ drop k rs))"
proof (induction "length ws - Suc (Suc k)" arbitrary: k p acc)
  case 0
  then have l: "length ws = Suc (Suc k)" by simp
  from final obtain x where x: "getNextNode g (ws ! Suc k) (ws ! k) = Inr x"
    and c: "x = None \<or> (ws ! Suc k = e \<and> ws ! k \<noteq> ''-1'')"
    unfolding l by auto
  have e: "edge g (ws ! k) (ws ! Suc k) = Some (rs ! k)" using edges [of k] l by simp
  have "k < length rs" and "drop (Suc k) rs = []" using len l by simp_all
  then have d: "drop k rs = [rs ! k]"
    using Cons_nth_drop_Suc [of k rs] by simp
  from c show ?case
  proof
    assume "x = None"
    then show ?thesis using walk_step [OF e x] d by (simp add: walk_done)
  next
    assume "ws ! Suc k = e \<and> ws ! k \<noteq> ''-1''"
    then show ?thesis using walk_step [OF e x] d by simp
  qed
next
  case (Suc n)
  then have l: "Suc (Suc k) < length ws" by simp
  have e: "edge g (ws ! k) (ws ! Suc k) = Some (rs ! k)" using edges [of k] l by simp
  have x: "getNextNode g (ws ! Suc k) (ws ! k) = Inr (Some (ws ! Suc (Suc k)))"
    using nexts [OF l] .
  have nb: "ws ! Suc k \<noteq> e" using nobreak [OF l] .
  have "n = length ws - Suc (Suc (Suc k))" using Suc.hyps(2) by simp
  from Suc.hyps(1) [OF this l]
  have ih: "walk g (ws ! k) (ws ! Suc k) (Some (ws ! Suc (Suc k))) e (acc @ [rs ! k]) =
            Some (Inr ((acc @ [rs ! k]) @ drop (Suc k) rs))" .
  have "k < length rs" using len l by simp
  then have d: "drop k rs = rs ! k # drop (Suc k) rs" by (simp add: Cons_nth_drop_Suc)
  show ?case using walk_step [OF e x] nb ih d by simp
qed

subsection \<open>Reading the next node off the neighbours\<close>

lemma getNextNode_neighbours:
  assumes "c \<in> set (map fst g)"
  shows "getNextNode g c l = Inr (js_nth (filter (\<lambda>k. k \<noteq> l) (neighbours g c)) 0)"
proof (cases "map_get g c")
  case None
  then show ?thesis using assms by (simp add: map_get_None_iff)
next
  case (Some nb)
  then show ?thesis by (simp add: getNextNode_def neighbours_def)
qed

lemma distinct_single:
  assumes "distinct xs" and "\<And>v. v \<in> set xs \<longleftrightarrow> v = x"
  shows "xs = [x]"
proof (cases xs)
  case Nil
  then show ?thesis using assms(2) [of x] by simp
next
  case (Cons y ys)
  then have y: "y = x" using assms(2) [of y] by simp
  have "ys = []"
  proof (cases ys)
    case Nil
    then show ?thesis .
  next
    case (Cons z zs)
    then have "z = x" using assms(2) [of z] \<open>xs = y # ys\<close> by simp
    then show ?thesis using assms(1) y Cons \<open>xs = y # ys\<close> by simp
  qed
  then show ?thesis using Cons y by simp
qed

lemma filter_other:
  assumes "distinct xs" and "\<And>v. v \<in> set xs \<longleftrightarrow> v = l \<or> v = x" and "x \<noteq> l"
  shows "filter (\<lambda>k. k \<noteq> l) xs = [x]"
proof (rule distinct_single)
  show "distinct (filter (\<lambda>k. k \<noteq> l) xs)" using assms(1) by simp
next
  fix v
  show "v \<in> set (filter (\<lambda>k. k \<noteq> l) xs) \<longleftrightarrow> v = x"
    using assms(2) [of v] assms(3) by auto
qed

lemma length_two:
  assumes "distinct xs" and "\<And>v. v \<in> set xs \<longleftrightarrow> v = a \<or> v = b" and "a \<noteq> b"
  shows "length xs = 2"
proof -
  have "filter (\<lambda>k. k \<noteq> a) xs = [b]"
    using assms(1) assms(2) assms(3) [symmetric] by (rule filter_other)
  moreover have "filter (\<lambda>k. \<not> k \<noteq> a) xs = [a]"
  proof (rule distinct_single)
    show "distinct (filter (\<lambda>k. \<not> k \<noteq> a) xs)" using assms(1) by simp
  next
    fix v
    show "v \<in> set (filter (\<lambda>k. \<not> k \<noteq> a) xs) \<longleftrightarrow> v = a"
      using assms(2) [of v] by auto
  qed
  ultimately show ?thesis
    using sum_length_filter_compl [of "\<lambda>k. k \<noteq> a" xs] by simp
qed

subsection \<open>The graph of a chain\<close>

lemma chainGraph_built:
  assumes "set ss = fst ` set os" and "uniqueEnds ss" and "chained os" and "os \<noteq> []"
  shows "chainGraph (foldl addSegment [] ss) os"
proof -
  have "\<forall>x \<in> set os. ostart x \<noteq> oend x \<longrightarrow>
          edge (foldl addSegment [] ss) (ostart x) (oend x) = Some (oref x)"
  proof (intro ballI impI)
    fix x assume "x \<in> set os" and ne: "ostart x \<noteq> oend x"
    then have "fst x \<in> set ss" using assms(1) by simp
    then show "edge (foldl addSegment [] ss) (ostart x) (oend x) = Some (oref x)"
      using ne by (rule edge_oriented [OF assms(2)])
  qed
  then show ?thesis
    unfolding chainGraph_def
    using assms(3,4) wellFormed_built [of ss] keys_chain [OF assms(1,3,4)]
      neighbours_chain [OF assms(1,3)]
    by blast
qed

lemma cg_length:
  assumes "chainGraph g os"
  shows "length (pathNodes os) = Suc (length os)"
  using assms by (simp add: chainGraph_def length_pathNodes)

lemma cg_edges:
  assumes "chainGraph g os" and "pathLike (pathNodes os) \<or> cycleLike (pathNodes os)"
    and "Suc j < length (pathNodes os)"
  shows "edge g (pathNodes os ! j) (pathNodes os ! Suc j) = Some (map oref os ! j)"
proof -
  have j: "j < length os" using assms(3) cg_length [OF assms(1)] by simp
  have c: "chained os" using assms(1) by (simp add: chainGraph_def)
  have s: "pathNodes os ! j = ostart (os ! j)" using c j by (rule pathNodes_nth)
  have e: "pathNodes os ! Suc j = oend (os ! j)" using j by (rule pathNodes_Suc)
  have "ostart (os ! j) \<noteq> oend (os ! j)"
    using consecutive_distinct [OF assms(2,3)] s e by simp
  moreover have "os ! j \<in> set os" using j by (rule nth_mem)
  ultimately have "edge g (ostart (os ! j)) (oend (os ! j)) = Some (oref (os ! j))"
    using assms(1) unfolding chainGraph_def by blast
  then show ?thesis using s e j by simp
qed

lemma cg_key:
  assumes "chainGraph g os" and "m < length (pathNodes os)"
  shows "pathNodes os ! m \<in> set (map fst g)"
proof -
  have "pathNodes os ! m \<in> set (pathNodes os)" using assms(2) by (rule nth_mem)
  then show ?thesis using assms(1) unfolding chainGraph_def by blast
qed

lemma cg_neighbours:
  assumes "chainGraph g os"
  shows "v \<in> set (neighbours g u) \<longleftrightarrow> adjacentIn (pathNodes os) u v"
  using assms unfolding chainGraph_def by blast

lemma cg_distinct:
  assumes "chainGraph g os"
  shows "distinct (neighbours g u)"
  using assms distinct_neighbours unfolding chainGraph_def by blast

lemma cg_next_interior:
  assumes "chainGraph g os" and "pathLike (pathNodes os) \<or> cycleLike (pathNodes os)"
    and "Suc (Suc j) < length (pathNodes os)"
  shows "getNextNode g (pathNodes os ! Suc j) (pathNodes os ! j) =
           Inr (Some (pathNodes os ! Suc (Suc j)))"
proof -
  let ?ws = "pathNodes os"
  have "Suc j < length ?ws" using assms(3) by simp
  with assms(1) have k: "?ws ! Suc j \<in> set (map fst g)" by (rule cg_key)
  have n: "v \<in> set (neighbours g (?ws ! Suc j)) \<longleftrightarrow> v = ?ws ! j \<or> v = ?ws ! Suc (Suc j)" for v
    using cg_neighbours [OF assms(1)] adjacent_interior [OF assms(2) _ assms(3), of v] by simp
  have ne: "?ws ! Suc (Suc j) \<noteq> ?ws ! j"
    using skip_distinct [OF assms(2,3)] by simp
  have "filter (\<lambda>k. k \<noteq> ?ws ! j) (neighbours g (?ws ! Suc j)) = [?ws ! Suc (Suc j)]"
    using cg_distinct [OF assms(1)] n ne by (rule filter_other)
  then show ?thesis by (simp add: getNextNode_neighbours [OF k])
qed

lemma cg_next_last:
  assumes "chainGraph g os" and "pathLike (pathNodes os)"
  shows "getNextNode g (pathNodes os ! (length (pathNodes os) - 1))
           (pathNodes os ! (length (pathNodes os) - 2)) = Inr None"
proof -
  let ?ws = "pathNodes os"
  have l: "2 \<le> length ?ws" using assms(2) by (simp add: pathLike_def)
  then have "length ?ws - 1 < length ?ws" by simp
  with assms(1) have k: "?ws ! (length ?ws - 1) \<in> set (map fst g)" by (rule cg_key)
  have "\<forall>v \<in> set (neighbours g (?ws ! (length ?ws - 1))). v = ?ws ! (length ?ws - 2)"
    using cg_neighbours [OF assms(1)] adjacent_last [OF assms(2)] by simp
  then have "filter (\<lambda>k. k \<noteq> ?ws ! (length ?ws - 2)) (neighbours g (?ws ! (length ?ws - 1))) = []"
    by (simp add: filter_empty_conv)
  then show ?thesis unfolding getNextNode_neighbours [OF k] by simp
qed

lemma cg_first_neighbours:
  assumes "chainGraph g os" and "pathLike (pathNodes os)"
  shows "neighbours g (pathNodes os ! 0) = [pathNodes os ! Suc 0]"
proof (rule distinct_single)
  show "distinct (neighbours g (pathNodes os ! 0))" using assms(1) by (rule cg_distinct)
next
  fix v
  show "v \<in> set (neighbours g (pathNodes os ! 0)) \<longleftrightarrow> v = pathNodes os ! Suc 0"
    using cg_neighbours [OF assms(1)] adjacent_first [OF assms(2)] by simp
qed

lemma cg_last_neighbours:
  assumes "chainGraph g os" and "pathLike (pathNodes os)"
  shows "neighbours g (pathNodes os ! (length (pathNodes os) - 1)) =
           [pathNodes os ! (length (pathNodes os) - 2)]"
proof (rule distinct_single)
  show "distinct (neighbours g (pathNodes os ! (length (pathNodes os) - 1)))"
    using assms(1) by (rule cg_distinct)
next
  fix v
  show "v \<in> set (neighbours g (pathNodes os ! (length (pathNodes os) - 1))) \<longleftrightarrow>
          v = pathNodes os ! (length (pathNodes os) - 2)"
    using cg_neighbours [OF assms(1)] adjacent_last [OF assms(2)] by simp
qed

lemma cg_next_first:
  assumes "chainGraph g os" and "pathLike (pathNodes os)" and "pathNodes os ! Suc 0 \<noteq> l"
  shows "getNextNode g (pathNodes os ! 0) l = Inr (Some (pathNodes os ! Suc 0))"
proof -
  have "0 < length (pathNodes os)" using assms(2) by (auto simp add: pathLike_def)
  with assms(1) have k: "pathNodes os ! 0 \<in> set (map fst g)" by (rule cg_key)
  show ?thesis
    using assms(3) by (simp add: getNextNode_neighbours [OF k] cg_first_neighbours [OF assms(1,2)])
qed

lemma cg_interior_degree:
  assumes "chainGraph g os" and "pathLike (pathNodes os) \<or> cycleLike (pathNodes os)"
    and "0 < m" and "Suc m < length (pathNodes os)"
  shows "length (neighbours g (pathNodes os ! m)) = 2"
proof -
  let ?ws = "pathNodes os"
  from assms(3) obtain j where m: "m = Suc j" using gr0_implies_Suc by blast
  have n: "v \<in> set (neighbours g (?ws ! m)) \<longleftrightarrow> v = ?ws ! (m - 1) \<or> v = ?ws ! Suc m" for v
    using cg_neighbours [OF assms(1)] adjacent_interior [OF assms(2,3,4), of v] by simp
  have "?ws ! j \<noteq> ?ws ! Suc (Suc j)"
    using skip_distinct [OF assms(2)] assms(4) m by simp
  then have "?ws ! (m - 1) \<noteq> ?ws ! Suc m" using m by simp
  with cg_distinct [OF assms(1)] n show ?thesis by (rule length_two)
qed

lemma cg_cycle_first_degree:
  assumes "chainGraph g os" and "cycleLike (pathNodes os)"
  shows "length (neighbours g (pathNodes os ! 0)) = 2"
proof -
  let ?ws = "pathNodes os"
  have l: "4 \<le> length ?ws" using assms(2) by (rule cycleLike_length)
  have n: "v \<in> set (neighbours g (?ws ! 0)) \<longleftrightarrow> v = ?ws ! Suc 0 \<or> v = ?ws ! (length ?ws - 2)" for v
    using cg_neighbours [OF assms(1)] adjacent_cycle_first [OF assms(2), of v] by simp
  have "?ws ! Suc 0 \<noteq> ?ws ! (length ?ws - 2)"
  proof
    assume eq: "?ws ! Suc 0 = ?ws ! (length ?ws - 2)"
    have a: "Suc 0 < length ?ws - 1" and b: "length ?ws - 2 < length ?ws - 1"
      using l by linarith+
    from cycleLike_nth_eq [OF assms(2) a b eq] l show False by linarith
  qed
  with cg_distinct [OF assms(1)] n show ?thesis by (rule length_two)
qed

subsection \<open>The walk along a path and around a cycle\<close>

lemma not_mem_neq: "a \<notin> set xs \<Longrightarrow> x \<in> set xs \<Longrightarrow> x \<noteq> a"
  by auto

lemma walk_path:
  assumes cg: "chainGraph g os" and pl: "pathLike (pathNodes os)"
    and ns: "''-1'' \<notin> set (pathNodes os)"
  shows "walk g p (pathNodes os ! 0) (Some (pathNodes os ! Suc 0)) ''-1'' [] =
           Some (Inr (map oref os))"
proof -
  let ?ws = "pathNodes os"
  have pc: "pathLike ?ws \<or> cycleLike ?ws" using pl by simp
  have l: "Suc 0 < length ?ws" using pl by (simp add: pathLike_def)
  have "walk g p (?ws ! 0) (Some (?ws ! Suc 0)) ''-1'' [] = Some (Inr ([] @ drop 0 (map oref os)))"
  proof (rule walk_along [where ws = ?ws and rs = "map oref os"])
    fix j assume "Suc j < length ?ws"
    with cg pc show "edge g (?ws ! j) (?ws ! Suc j) = Some (map oref os ! j)" by (rule cg_edges)
  next
    fix j assume "Suc (Suc j) < length ?ws"
    with cg pc show "getNextNode g (?ws ! Suc j) (?ws ! j) = Inr (Some (?ws ! Suc (Suc j)))"
      by (rule cg_next_interior)
  next
    fix j assume "Suc (Suc j) < length ?ws"
    then have "?ws ! Suc j \<in> set ?ws" by simp
    with ns show "?ws ! Suc j \<noteq> ''-1''" by (rule not_mem_neq)
  next
    show "\<exists>x. getNextNode g (?ws ! (length ?ws - 1)) (?ws ! (length ?ws - 2)) = Inr x \<and>
            (x = None \<or> (?ws ! (length ?ws - 1) = ''-1'' \<and> ?ws ! (length ?ws - 2) \<noteq> ''-1''))"
      using cg_next_last [OF cg pl] by blast
  next
    show "length (map oref os) = length ?ws - 1" using cg_length [OF cg] by simp
  next
    show "Suc 0 < length ?ws" by (rule l)
  qed
  then show ?thesis by simp
qed

lemma walk_cycle:
  assumes cg: "chainGraph g os" and cl: "cycleLike (pathNodes os)"
    and ns: "''-1'' \<notin> set (pathNodes os)"
  shows "walk g p (pathNodes os ! 0) (Some (pathNodes os ! Suc 0)) (pathNodes os ! 0) [] =
           Some (Inr (map oref os))"
proof -
  let ?ws = "pathNodes os"
  have pc: "pathLike ?ws \<or> cycleLike ?ws" using cl by simp
  have l4: "4 \<le> length ?ws" using cl by (rule cycleLike_length)
  have "walk g p (?ws ! 0) (Some (?ws ! Suc 0)) (?ws ! 0) [] =
          Some (Inr ([] @ drop 0 (map oref os)))"
  proof (rule walk_along [where ws = ?ws and rs = "map oref os"])
    fix j assume "Suc j < length ?ws"
    with cg pc show "edge g (?ws ! j) (?ws ! Suc j) = Some (map oref os ! j)" by (rule cg_edges)
  next
    fix j assume "Suc (Suc j) < length ?ws"
    with cg pc show "getNextNode g (?ws ! Suc j) (?ws ! j) = Inr (Some (?ws ! Suc (Suc j)))"
      by (rule cg_next_interior)
  next
    fix j assume j: "Suc (Suc j) < length ?ws"
    show "?ws ! Suc j \<noteq> ?ws ! 0"
    proof
      assume eq: "?ws ! Suc j = ?ws ! 0"
      have a: "Suc j < length ?ws - 1" and b: "0 < length ?ws - 1" using j by linarith+
      from cycleLike_nth_eq [OF cl a b eq] show False by simp
    qed
  next
    have "length ?ws - 1 < length ?ws" and m: "length ?ws - 2 < length ?ws" using l4 by linarith+
    with cg have "?ws ! (length ?ws - 1) \<in> set (map fst g)" by (simp only: cg_key)
    then have "\<exists>x. getNextNode g (?ws ! (length ?ws - 1)) (?ws ! (length ?ws - 2)) = Inr x"
      by (simp only: getNextNode_neighbours) blast
    moreover have "?ws ! (length ?ws - 1) = ?ws ! 0" using cl by (rule cycleLike_last)
    moreover have "?ws ! (length ?ws - 2) \<in> set ?ws" using m by (rule nth_mem)
    with ns have "?ws ! (length ?ws - 2) \<noteq> ''-1''" by (rule not_mem_neq)
    ultimately show "\<exists>x. getNextNode g (?ws ! (length ?ws - 1)) (?ws ! (length ?ws - 2)) = Inr x \<and>
            (x = None \<or> (?ws ! (length ?ws - 1) = ?ws ! 0 \<and> ?ws ! (length ?ws - 2) \<noteq> ''-1''))"
      by blast
  next
    show "length (map oref os) = length ?ws - 1" using cg_length [OF cg] by simp
  next
    show "Suc 0 < length ?ws" using l4 by linarith
  qed
  then show ?thesis by simp
qed

subsection \<open>Degrees\<close>

lemma nodesOfDegree_filter:
  assumes "wellFormed g"
  shows "nodesOfDegree g d = filter (\<lambda>x. length (neighbours g x) = d) (map fst g)"
proof -
  have "filter (\<lambda>(n, es). length es = d) g = filter ((\<lambda>x. length (neighbours g x) = d) \<circ> fst) g"
  proof (rule filter_cong [OF refl])
    fix e assume e: "e \<in> set g"
    obtain n es where ne: "e = (n, es)" by (cases e)
    have "neighbours g n = map fst es" using assms e unfolding ne by (rule neighbours_entry)
    then show "(case e of (n, es) \<Rightarrow> length es = d) = ((\<lambda>x. length (neighbours g x) = d) \<circ> fst) e"
      by (simp add: ne)
  qed
  then show ?thesis by (simp add: nodesOfDegree_def filter_map)
qed

lemma nodesOfDegree3Plus_filter:
  assumes "wellFormed g"
  shows "nodesOfDegree3Plus g = filter (\<lambda>x. 3 \<le> length (neighbours g x)) (map fst g)"
proof -
  have "filter (\<lambda>(n, es). 3 \<le> length es) g = filter ((\<lambda>x. 3 \<le> length (neighbours g x)) \<circ> fst) g"
  proof (rule filter_cong [OF refl])
    fix e assume e: "e \<in> set g"
    obtain n es where ne: "e = (n, es)" by (cases e)
    have "neighbours g n = map fst es" using assms e unfolding ne by (rule neighbours_entry)
    then show "(case e of (n, es) \<Rightarrow> 3 \<le> length es) = ((\<lambda>x. 3 \<le> length (neighbours g x)) \<circ> fst) e"
      by (simp add: ne)
  qed
  then show ?thesis by (simp add: nodesOfDegree3Plus_def filter_map)
qed

lemma cg_wellFormed: "chainGraph g os \<Longrightarrow> wellFormed g"
  by (simp add: chainGraph_def)

lemma cg_keys: "chainGraph g os \<Longrightarrow> set (map fst g) = set (pathNodes os)"
  by (simp add: chainGraph_def)

lemma path_degree:
  assumes cg: "chainGraph g os" and pl: "pathLike (pathNodes os)"
    and m: "m < length (pathNodes os)"
  shows "length (neighbours g (pathNodes os ! m)) =
           (if m = 0 \<or> m = length (pathNodes os) - 1 then 1 else 2)"
proof (cases "m = 0 \<or> m = length (pathNodes os) - 1")
  case True
  then show ?thesis
    using cg_first_neighbours [OF cg pl] cg_last_neighbours [OF cg pl] by auto
next
  case False
  then have "0 < m" and "Suc m < length (pathNodes os)" using m by linarith+
  then have "length (neighbours g (pathNodes os ! m)) = 2"
    using cg_interior_degree [OF cg _ _ _] pl by blast
  then show ?thesis using False by simp
qed

lemma cycle_degree:
  assumes cg: "chainGraph g os" and cl: "cycleLike (pathNodes os)"
    and m: "m < length (pathNodes os)"
  shows "length (neighbours g (pathNodes os ! m)) = 2"
proof (cases "m = 0 \<or> m = length (pathNodes os) - 1")
  case True
  then have "pathNodes os ! m = pathNodes os ! 0" using cycleLike_last [OF cl] by auto
  then show ?thesis using cg_cycle_first_degree [OF cg cl] by simp
next
  case False
  then have "0 < m" and "Suc m < length (pathNodes os)" using m by linarith+
  then show ?thesis using cg_interior_degree [OF cg _ _ _] cl by blast
qed

lemma cycle_no_dead_end:
  assumes cg: "chainGraph g os" and cl: "cycleLike (pathNodes os)"
  shows "nodesOfDegree g 1 = []" and "nodesOfDegree3Plus g = []"
proof -
  have two: "length (neighbours g x) = 2" if "x \<in> set (map fst g)" for x
  proof -
    from that have "x \<in> set (pathNodes os)" using cg_keys [OF cg] by simp
    then obtain m where "m < length (pathNodes os)" and "pathNodes os ! m = x"
      unfolding in_set_conv_nth by blast
    then show ?thesis using cycle_degree [OF cg cl] by blast
  qed
  show "nodesOfDegree g 1 = []"
    unfolding nodesOfDegree_filter [OF cg_wellFormed [OF cg]] filter_empty_conv
    using two by simp
  show "nodesOfDegree3Plus g = []"
    unfolding nodesOfDegree3Plus_filter [OF cg_wellFormed [OF cg]] filter_empty_conv
    using two by simp
qed

lemma two_elements:
  assumes "distinct xs" and "\<And>v. v \<in> set xs \<longleftrightarrow> v = a \<or> v = b" and "a \<noteq> b"
  shows "xs = [a, b] \<or> xs = [b, a]"
proof -
  have "length xs = 2" using assms by (rule length_two)
  then obtain y z where xs: "xs = [y, z]"
    by (cases xs; cases "tl xs"; cases "tl (tl xs)") auto
  have "y = a \<or> y = b" and "z = a \<or> z = b" using assms(2) [of y] assms(2) [of z] xs by simp_all
  moreover have "y \<noteq> z" using assms(1) xs by simp
  moreover have "a = y \<or> a = z" and "b = y \<or> b = z"
    using assms(2) [of a] assms(2) [of b] xs by simp_all
  ultimately show ?thesis unfolding xs by blast
qed

lemma path_dead_ends:
  assumes cg: "chainGraph g os" and pl: "pathLike (pathNodes os)"
  shows "nodesOfDegree g 1 = [pathNodes os ! 0, pathNodes os ! (length (pathNodes os) - 1)] \<or>
         nodesOfDegree g 1 = [pathNodes os ! (length (pathNodes os) - 1), pathNodes os ! 0]"
    and "nodesOfDegree3Plus g = []"
proof -
  let ?ws = "pathNodes os"
  have l: "2 \<le> length ?ws" and d: "distinct ?ws" using pl by (simp_all add: pathLike_def)
  have wf: "wellFormed g" using cg by (rule cg_wellFormed)
  have deg: "length (neighbours g x) = 1 \<longleftrightarrow> x = ?ws ! 0 \<or> x = ?ws ! (length ?ws - 1)"
    and small: "length (neighbours g x) \<le> 2"
    if "x \<in> set (map fst g)" for x
  proof -
    from that have "x \<in> set ?ws" using cg_keys [OF cg] by simp
    then obtain m where m: "m < length ?ws" and x: "?ws ! m = x"
      unfolding in_set_conv_nth by blast
    have lm: "length ?ws - 1 < length ?ws" and z: "0 < length ?ws" using l by linarith+
    have "x = ?ws ! 0 \<longleftrightarrow> m = 0"
      using distinct_nth_eq [OF d m z] x by auto
    moreover have "x = ?ws ! (length ?ws - 1) \<longleftrightarrow> m = length ?ws - 1"
      using distinct_nth_eq [OF d m lm] x by auto
    ultimately show "length (neighbours g x) = 1 \<longleftrightarrow> x = ?ws ! 0 \<or> x = ?ws ! (length ?ws - 1)"
      using path_degree [OF cg pl m] x by auto
    show "length (neighbours g x) \<le> 2" using path_degree [OF cg pl m] x by auto
  qed
  have lm: "length ?ws - 1 < length ?ws" and z: "0 < length ?ws" using l by linarith+
  have k0: "?ws ! 0 \<in> set (map fst g)" and kl: "?ws ! (length ?ws - 1) \<in> set (map fst g)"
    using cg_key [OF cg z] cg_key [OF cg lm] by blast+
  have mem: "v \<in> set (nodesOfDegree g 1) \<longleftrightarrow> v = ?ws ! 0 \<or> v = ?ws ! (length ?ws - 1)" for v
    unfolding nodesOfDegree_filter [OF wf] using deg [of v] k0 kl by auto
  have dist: "distinct (nodesOfDegree g 1)"
    unfolding nodesOfDegree_filter [OF wf] using wf by (simp add: wellFormed_def)
  have ne: "?ws ! 0 \<noteq> ?ws ! (length ?ws - 1)"
    using distinct_nth_eq [OF d z lm] l by auto
  from dist mem ne
  show "nodesOfDegree g 1 = [?ws ! 0, ?ws ! (length ?ws - 1)] \<or>
        nodesOfDegree g 1 = [?ws ! (length ?ws - 1), ?ws ! 0]"
    by (rule two_elements)
  show "nodesOfDegree3Plus g = []"
    unfolding nodesOfDegree3Plus_filter [OF wf] filter_empty_conv
    using small by fastforce
qed

lemma cg_not_single:
  assumes cg: "chainGraph g os" and pc: "pathLike (pathNodes os) \<or> cycleLike (pathNodes os)"
  shows "length g \<noteq> 1"
proof
  assume "length g = 1"
  then obtain e where "g = [e]" by (cases g) auto
  then have one: "\<And>x y. x \<in> set (map fst g) \<Longrightarrow> y \<in> set (map fst g) \<Longrightarrow> x = y" by simp
  have l: "Suc 0 < length (pathNodes os)"
    using pc by (auto simp add: pathLike_def cycleLike_def)
  then have "0 < length (pathNodes os)" by linarith
  from cg_key [OF cg this] cg_key [OF cg l] one
  have "pathNodes os ! 0 = pathNodes os ! Suc 0" by blast
  then show False using consecutive_distinct [OF pc l] by simp
qed

subsection \<open>The whole ordering\<close>

lemma ordered_path:
  assumes cg: "chainGraph g os" and pl: "pathLike (pathNodes os)"
    and ns: "''-1'' \<notin> set (pathNodes os)"
    and first: "nodesOfDegree g 1 = [pathNodes os ! 0, pathNodes os ! (length (pathNodes os) - 1)]"
  shows "orderedChildIdsOf g = Some (Inr (map oref os))"
proof -
  let ?ws = "pathNodes os"
  have l: "Suc 0 < length ?ws" using pl by (simp add: pathLike_def)
  have f: "firstDegreeOne g = Some (?ws ! 0)"
    using first by (simp add: firstDegreeOne_def nodesOfDegree_def)
  have z: "0 < length ?ws" using l by linarith
  have "?ws ! 0 \<in> set ?ws" and "?ws ! Suc 0 \<in> set ?ws"
    using nth_mem [OF z] nth_mem [OF l] by blast+
  then have n0: "?ws ! 0 \<noteq> ''-1''" and n1: "?ws ! Suc 0 \<noteq> ''-1''"
    using ns by (simp_all only: not_mem_neq [OF ns] simp_thms)
  have nx: "getNextNode g (?ws ! 0) ''-1'' = Inr (Some (?ws ! Suc 0))"
    using cg pl n1 by (rule cg_next_first)
  have single: "length g \<noteq> 1" using cg_not_single [OF cg] pl by blast
  show ?thesis
    using single f nx n0 walk_path [OF cg pl ns]
    by (simp add: orderedChildIdsOf_def)
qed

lemma orderedChildIdsOf_round:
  assumes "length g \<noteq> 1" and "firstDegreeOne g = None" and "g = (n, (k, v) # nb) # g'"
  shows "orderedChildIdsOf g = walk g ''-1'' n (Some k) n []"
proof -
  have "(case g of (n, (k, v) # nb) # g' \<Rightarrow> walk g ''-1'' n (Some k) n []
         | _ \<Rightarrow> Some (Inl TypeError)) = walk g ''-1'' n (Some k) n []"
    by (subst (1) assms(3)) simp
  then show ?thesis using assms(1,2) by (simp add: orderedChildIdsOf_def)
qed

lemma ordered_cycle:
  assumes cg: "chainGraph g os" and cl: "cycleLike (pathNodes os)"
    and ns: "''-1'' \<notin> set (pathNodes os)"
    and hs: "headShape g (pathNodes os ! 0) (pathNodes os ! Suc 0)"
  shows "orderedChildIdsOf g = Some (Inr (map oref os))"
proof -
  let ?ws = "pathNodes os"
  have f: "firstDegreeOne g = None"
    using cycle_no_dead_end(1) [OF cg cl] by (simp add: firstDegreeOne_def nodesOfDegree_def)
  have single: "length g \<noteq> 1" using cg_not_single [OF cg] cl by blast
  from hs obtain x nb g' where g: "g = (?ws ! 0, (?ws ! Suc 0, x) # nb) # g'"
    unfolding headShape_def by blast
  have "orderedChildIdsOf g = walk g ''-1'' (?ws ! 0) (Some (?ws ! Suc 0)) (?ws ! 0) []"
    using single f g by (rule orderedChildIdsOf_round)
  then show ?thesis using walk_cycle [OF cg cl ns] by simp
qed

subsection \<open>Flipping a chain\<close>

lemma ostart_flip1 [simp]: "ostart (flip1 x) = oend x"
  by (cases x rule: ostart.cases) (simp add: flip1_def)

lemma oend_flip1 [simp]: "oend (flip1 x) = ostart x"
  by (cases x rule: ostart.cases) (simp add: flip1_def)

lemma fst_flip1 [simp]: "fst (flip1 x) = fst x"
  by (simp add: flip1_def)

lemma length_flip [simp]: "length (flip os) = length os"
  by (simp add: flip_def)

lemma flip_nth: "k < length os \<Longrightarrow> flip os ! k = flip1 (os ! (length os - Suc k))"
  by (simp add: flip_def rev_nth)

lemma map_fst_flip: "map fst (flip os) = rev (map fst os)"
  by (simp add: flip_def rev_map)

lemma flip_Nil_iff [simp]: "flip os = [] \<longleftrightarrow> os = []"
  by (simp add: flip_def)

lemma chained_iff_nth:
  "chained os \<longleftrightarrow> (\<forall>k. Suc k < length os \<longrightarrow> oend (os ! k) = ostart (os ! Suc k))"
proof
  assume "chained os"
  then show "\<forall>k. Suc k < length os \<longrightarrow> oend (os ! k) = ostart (os ! Suc k)"
    by (simp add: chained_nth)
next
  show "\<forall>k. Suc k < length os \<longrightarrow> oend (os ! k) = ostart (os ! Suc k) \<Longrightarrow> chained os"
  proof (induction os rule: chained.induct)
    case (1 x y os)
    have "oend x = ostart y" using "1.prems" [rule_format, of 0] by simp
    moreover have "\<forall>k. Suc k < length (y # os) \<longrightarrow> oend ((y # os) ! k) = ostart ((y # os) ! Suc k)"
    proof (intro allI impI)
      fix k assume "Suc k < length (y # os)"
      then show "oend ((y # os) ! k) = ostart ((y # os) ! Suc k)"
        using "1.prems" [rule_format, of "Suc k"] by simp
    qed
    ultimately show ?case using "1.IH" by simp
  qed simp_all
qed

lemma chained_flip:
  assumes "chained os"
  shows "chained (flip os)"
  unfolding chained_iff_nth
proof (intro allI impI)
  fix k assume "Suc k < length (flip os)"
  then have k: "Suc k < length os" by simp
  then have a: "flip os ! k = flip1 (os ! (length os - Suc k))"
    and b: "flip os ! Suc k = flip1 (os ! (length os - Suc (Suc k)))"
    by (simp_all add: flip_nth)
  have "Suc (length os - Suc (Suc k)) < length os" using k by linarith
  from chained_nth [OF assms this]
  have "oend (os ! (length os - Suc (Suc k))) = ostart (os ! Suc (length os - Suc (Suc k)))" .
  moreover have "Suc (length os - Suc (Suc k)) = length os - Suc k" using k by linarith
  ultimately show "oend (flip os ! k) = ostart (flip os ! Suc k)"
    unfolding a b by simp
qed

lemma pathNodes_alt:
  assumes "chained os" and "os \<noteq> []"
  shows "pathNodes os = map ostart os @ [oend (last os)]"
proof (rule nth_equalityI)
  show "length (pathNodes os) = length (map ostart os @ [oend (last os)])"
    using assms(2) by (simp add: length_pathNodes)
next
  fix i assume "i < length (pathNodes os)"
  then have i: "i < Suc (length os)" using assms(2) by (simp add: length_pathNodes)
  show "pathNodes os ! i = (map ostart os @ [oend (last os)]) ! i"
  proof (cases "i < length os")
    case True
    then show ?thesis using pathNodes_nth [OF assms(1) True] by (simp add: nth_append)
  next
    case False
    with i have il: "i = length os" by simp
    from assms(2) obtain j where j: "length os = Suc j"
      using gr0_implies_Suc [of "length os"] by auto
    have "pathNodes os ! Suc j = oend (os ! j)" using j by (simp add: pathNodes_Suc)
    moreover have "last os = os ! j" using assms(2) j by (simp add: last_conv_nth)
    ultimately show ?thesis using il j by (simp add: nth_append)
  qed
qed

lemma pathNodes_flip:
  assumes "chained os" and "os \<noteq> []"
  shows "pathNodes (flip os) = rev (pathNodes os)"
proof -
  have "hd (flip os) = flip1 (last os)"
    using assms(2) by (simp add: flip_def hd_rev last_map)
  moreover have "map oend (flip os) = rev (map ostart os)"
    by (simp add: flip_def rev_map)
  ultimately have "pathNodes (flip os) = oend (last os) # rev (map ostart os)"
    using assms(2) by (simp add: pathNodes_Cons)
  then show ?thesis by (simp add: pathNodes_alt [OF assms])
qed

lemma simplePath_flip:
  assumes "simplePath ss os"
  shows "simplePath ss (flip os)"
proof -
  from assms have ne: "os \<noteq> []" and c: "chained os" by (simp_all add: simplePath_def)
  have "mset (map fst (flip os)) = mset ss"
    using assms by (simp add: map_fst_flip simplePath_def)
  then show ?thesis
    using assms chained_flip [OF c] pathNodes_flip [OF c ne]
    by (simp add: simplePath_def)
qed

subsection \<open>No two segments of a simple chain join the same nodes\<close>

lemma sameEnds_oriented:
  "sameEnds (fst x) (fst y) \<longleftrightarrow>
     (ostart x = ostart y \<and> oend x = oend y) \<or> (ostart x = oend y \<and> oend x = ostart y)"
proof -
  obtain a b i f where x: "x = ((a, b, i), f)" by (cases x rule: ostart.cases)
  obtain a' b' i' f' where y: "y = ((a', b', i'), f')" by (cases y rule: ostart.cases)
  show ?thesis unfolding x y sameEnds_def by (cases f; cases f'; simp; blast)
qed

lemma same_index:
  assumes "pathLike ws \<or> cycleLike ws" and "Suc j < length ws" and "Suc k < length ws"
    and "ws ! j = ws ! k"
  shows "j = k"
  using assms(1)
proof
  assume "pathLike ws"
  then have "distinct ws" by (simp add: pathLike_def)
  then show ?thesis using assms(2,3,4) distinct_nth_eq [of ws j k] by simp
next
  assume c: "cycleLike ws"
  have "j < length ws - 1" and "k < length ws - 1" using assms(2,3) by linarith+
  with c show ?thesis using assms(4) by (rule cycleLike_nth_eq)
qed

lemma no_swap:
  assumes pc: "pathLike ws \<or> cycleLike ws" and j: "Suc j < length ws" and k: "Suc k < length ws"
    and a: "ws ! k = ws ! Suc j" and b: "ws ! Suc k = ws ! j"
  shows False
proof (cases "Suc (Suc j) < length ws")
  case True
  then have "k = Suc j" using interior_unique [OF pc _ True _ a] k by simp
  then have "ws ! j = ws ! Suc (Suc j)" using b by simp
  then show False using skip_distinct [OF pc True] by simp
next
  case False
  show False
  proof (cases "Suc (Suc k) < length ws")
    case True
    then have "j = Suc k" using interior_unique [OF pc _ True _ b [symmetric]] j by simp
    then have "ws ! k = ws ! Suc (Suc k)" using a by simp
    then show False using skip_distinct [OF pc True] by simp
  next
    case f: False
    from False f j k have "k = j" by linarith
    then have "ws ! j = ws ! Suc j" using a by simp
    then show False using consecutive_distinct [OF pc j] by simp
  qed
qed

lemma uniqueEnds_chain:
  assumes c: "chained os" and pc: "pathLike (pathNodes os) \<or> cycleLike (pathNodes os)"
  shows "uniqueEnds (map fst os)"
  unfolding uniqueEnds_def
proof (intro ballI impI)
  let ?ws = "pathNodes os"
  fix s t assume sm: "s \<in> set (map fst os)" and tm: "t \<in> set (map fst os)"
    and se: "sameEnds t s"
  from sm obtain j where j: "j < length os" and s: "s = fst (os ! j)"
    unfolding in_set_conv_nth by auto
  from tm obtain k where k: "k < length os" and t: "t = fst (os ! k)"
    unfolding in_set_conv_nth by auto
  have ne: "os \<noteq> []" using j by auto
  have l: "length ?ws = Suc (length os)" using ne by (rule length_pathNodes)
  have sj: "?ws ! j = ostart (os ! j)" and ej: "?ws ! Suc j = oend (os ! j)"
    using pathNodes_nth [OF c j] pathNodes_Suc [OF j] by simp_all
  have sk: "?ws ! k = ostart (os ! k)" and ek: "?ws ! Suc k = oend (os ! k)"
    using pathNodes_nth [OF c k] pathNodes_Suc [OF k] by simp_all
  have lj: "Suc j < length ?ws" and lk: "Suc k < length ?ws" using j k l by simp_all
  from se have "(?ws ! k = ?ws ! j \<and> ?ws ! Suc k = ?ws ! Suc j) \<or>
                (?ws ! k = ?ws ! Suc j \<and> ?ws ! Suc k = ?ws ! j)"
    unfolding s t sameEnds_oriented sj ej sk ek .
  then show "t = s"
  proof
    assume "?ws ! k = ?ws ! j \<and> ?ws ! Suc k = ?ws ! Suc j"
    then have "k = j" using same_index [OF pc lk lj] by blast
    then show ?thesis by (simp add: s t)
  next
    assume "?ws ! k = ?ws ! Suc j \<and> ?ws ! Suc k = ?ws ! j"
    then have False using no_swap [OF pc lj lk] by blast
    then show ?thesis ..
  qed
qed

lemma uniqueEnds_set: "set ss = set ts \<Longrightarrow> uniqueEnds ss \<Longrightarrow> uniqueEnds ts"
  by (simp add: uniqueEnds_def)

subsection \<open>Simple paths\<close>

lemma simplePath_pathLike:
  assumes "simplePath ss os"
  shows "pathLike (pathNodes os)"
proof -
  from assms have ne: "os \<noteq> []" and d: "distinct (pathNodes os)"
    by (simp_all add: simplePath_def)
  from ne have "0 < length os" by simp
  then have "2 \<le> length (pathNodes os)" using length_pathNodes [OF ne] by linarith
  with d show ?thesis by (simp add: pathLike_def)
qed

lemma simplePath_chainGraph:
  assumes "simplePath ss os"
  shows "chainGraph (foldl addSegment [] ss) os"
proof -
  from assms have ne: "os \<noteq> []" and c: "chained os" and m: "mset (map fst os) = mset ss"
    by (simp_all add: simplePath_def)
  have s: "set (map fst os) = set ss" using m by (rule mset_eq_setD)
  have "uniqueEnds (map fst os)"
    using c simplePath_pathLike [OF assms] by (simp add: uniqueEnds_chain)
  with s have u: "uniqueEnds ss" by (rule uniqueEnds_set)
  from s have "set ss = fst ` set os" by simp
  then show ?thesis using u c ne by (rule chainGraph_built)
qed

lemma simplePath_ordered:
  assumes sp: "simplePath ss os"
    and first: "nodesOfDegree (foldl addSegment [] ss) 1 =
                  [pathNodes os ! 0, pathNodes os ! (length (pathNodes os) - 1)]"
  shows "orderedChildIdsOf (foldl addSegment [] ss) = Some (Inr (map oref os))"
proof -
  have "''-1'' \<notin> set (pathNodes os)" using sp by (simp add: simplePath_def)
  with simplePath_chainGraph [OF sp] simplePath_pathLike [OF sp]
  show ?thesis using first by (rule ordered_path)
qed

lemma pathNodes_first: "os \<noteq> [] \<Longrightarrow> pathNodes os ! 0 = ostart (hd os)"
  by (simp add: pathNodes_Cons)

lemma pathNodes_last:
  assumes "os \<noteq> []"
  shows "pathNodes os ! (length (pathNodes os) - 1) = oend (last os)"
proof -
  from assms obtain j where j: "length os = Suc j"
    using gr0_implies_Suc [of "length os"] by auto
  then have "pathNodes os ! Suc j = oend (os ! j)" by (simp add: pathNodes_Suc)
  moreover have "last os = os ! j" using assms j by (simp add: last_conv_nth)
  ultimately show ?thesis using assms j by (simp add: length_pathNodes)
qed

text \<open>The path, oriented as the walk goes: from the dead end that iterates first.\<close>

lemma simplePath_result:
  assumes sp: "simplePath ss os"
  shows "\<exists>os'. simplePath ss os' \<and>
           orderedChildIdsOf (foldl addSegment [] ss) = Some (Inr (map oref os')) \<and>
           nodesOfDegree (foldl addSegment [] ss) 1 = [ostart (hd os'), oend (last os')] \<and>
           nodesOfDegree3Plus (foldl addSegment [] ss) = []"
proof -
  let ?g = "foldl addSegment [] ss"
  let ?ws = "pathNodes os"
  have ne: "os \<noteq> []" and c: "chained os" using sp by (simp_all add: simplePath_def)
  have cg: "chainGraph ?g os" using sp by (rule simplePath_chainGraph)
  have pl: "pathLike ?ws" using sp by (rule simplePath_pathLike)
  have three: "nodesOfDegree3Plus ?g = []" using cg pl by (rule path_dead_ends(2))
  from path_dead_ends(1) [OF cg pl]
  show ?thesis
  proof
    assume first: "nodesOfDegree ?g 1 = [?ws ! 0, ?ws ! (length ?ws - 1)]"
    then have "orderedChildIdsOf ?g = Some (Inr (map oref os))"
      using sp by (simp add: simplePath_ordered)
    moreover have "nodesOfDegree ?g 1 = [ostart (hd os), oend (last os)]"
      using first pathNodes_first [OF ne] pathNodes_last [OF ne] by simp
    ultimately show ?thesis using sp three by blast
  next
    assume first: "nodesOfDegree ?g 1 = [?ws ! (length ?ws - 1), ?ws ! 0]"
    let ?os = "flip os"
    have sp': "simplePath ss ?os" using sp by (rule simplePath_flip)
    have ne': "?os \<noteq> []" using ne by simp
    have rv: "pathNodes ?os = rev ?ws" using c ne by (rule pathNodes_flip)
    have l: "0 < length ?ws" using ne by (simp add: length_pathNodes)
    have a: "pathNodes ?os ! 0 = ?ws ! (length ?ws - 1)"
      using l by (simp add: rv rev_nth)
    have b: "pathNodes ?os ! (length (pathNodes ?os) - 1) = ?ws ! 0"
      using l by (simp add: rv rev_nth)
    have first': "nodesOfDegree ?g 1 = [pathNodes ?os ! 0, pathNodes ?os ! (length (pathNodes ?os) - 1)]"
      using first a b by simp
    then have "orderedChildIdsOf ?g = Some (Inr (map oref ?os))"
      using sp' by (simp add: simplePath_ordered)
    moreover have "nodesOfDegree ?g 1 = [ostart (hd ?os), oend (last ?os)]"
      using first' pathNodes_first [OF ne'] pathNodes_last [OF ne'] by simp
    ultimately show ?thesis using sp' three by blast
  qed
qed

subsection \<open>Simple cycles\<close>

lemma chained_Cons:
  "chained (x # xs) \<longleftrightarrow> (xs \<noteq> [] \<longrightarrow> oend x = ostart (hd xs)) \<and> chained xs"
  by (cases xs) simp_all

lemma chained_snoc:
  "chained (xs @ [x]) \<longleftrightarrow> chained xs \<and> (xs \<noteq> [] \<longrightarrow> oend (last xs) = ostart x)"
  by (induction xs rule: chained.induct) auto

lemma closed_rotate1:
  assumes "chained os" and "oend (last os) = ostart (hd os)"
  shows "chained (rotate1 os) \<and> oend (last (rotate1 os)) = ostart (hd (rotate1 os))"
proof (cases os)
  case Nil
  then show ?thesis using assms by simp
next
  case (Cons x xs)
  show ?thesis
  proof (cases "xs = []")
    case True
    then show ?thesis using assms Cons by simp
  next
    case False
    have a: "oend x = ostart (hd xs)" and b: "chained xs"
      using assms(1) False unfolding Cons chained_Cons by simp_all
    have c: "oend (last xs) = ostart x" using assms(2) False unfolding Cons by simp
    show ?thesis using a b c False by (simp add: Cons chained_snoc)
  qed
qed

lemma simpleCycle_rotate1:
  assumes "simpleCycle ss os"
  shows "simpleCycle ss (rotate1 os)"
proof -
  from assms have c: "chained os" and e: "oend (last os) = ostart (hd os)"
    by (simp_all add: simpleCycle_def)
  have m: "mset (map fst (rotate1 os)) = mset (map fst os)"
    and d: "distinct (map ostart (rotate1 os)) = distinct (map ostart os)"
    and s: "set (map ostart (rotate1 os)) = set (map ostart os)"
    by (cases os; auto)+
  show ?thesis
    using assms closed_rotate1 [OF c e] unfolding simpleCycle_def m d s by simp
qed

lemma simpleCycle_rotate: "simpleCycle ss os \<Longrightarrow> simpleCycle ss (rotate n os)"
  by (induction n) (simp_all add: simpleCycle_rotate1)

lemma ends_rotate1:
  assumes "chained os" and "os \<noteq> []" and "oend (last os) = ostart (hd os)"
  shows "map oend os = rotate1 (map ostart os)"
proof -
  from assms(2) obtain x xs where os: "os = x # xs" by (cases os) auto
  have "ostart (hd os) # map oend os = map ostart os @ [oend (last os)]"
    using pathNodes_alt [OF assms(1,2)] pathNodes_Cons [OF assms(2)] by simp
  then have "map oend os = map ostart xs @ [ostart x]"
    using assms(3) unfolding os by simp
  then show ?thesis by (simp add: os)
qed

lemma simpleCycle_flip:
  assumes "simpleCycle ss os"
  shows "simpleCycle ss (flip os)"
proof -
  from assms have c: "chained os" and e: "oend (last os) = ostart (hd os)"
    and l: "3 \<le> length os" and d: "distinct (map ostart os)"
    and n: "''-1'' \<notin> set (map ostart os)" and m: "mset (map fst os) = mset ss"
    by (simp_all add: simpleCycle_def)
  have ne: "os \<noteq> []" using l by auto
  have "map ostart (flip os) = rev (map oend os)"
    by (simp add: flip_def rev_map comp_def)
  then have r: "map ostart (flip os) = rev (rotate1 (map ostart os))"
    using ends_rotate1 [OF c ne e] by simp
  have h: "hd (flip os) = flip1 (last os)" and la: "last (flip os) = flip1 (hd os)"
    using ne by (simp_all add: flip_def hd_rev last_rev hd_map last_map)
  have "oend (last (flip os)) = ostart (hd (flip os))" using e by (simp add: h la)
  moreover have "mset (map fst (flip os)) = mset ss" using m by (simp add: map_fst_flip)
  moreover have "distinct (map ostart (flip os))" using d by (simp add: r)
  moreover have "''-1'' \<notin> set (map ostart (flip os))" using n by (simp add: r)
  ultimately show ?thesis using l chained_flip [OF c] by (simp add: simpleCycle_def)
qed

lemma simpleCycle_cycleLike:
  assumes "simpleCycle ss os"
  shows "cycleLike (pathNodes os)" and "''-1'' \<notin> set (pathNodes os)"
proof -
  from assms have c: "chained os" and e: "oend (last os) = ostart (hd os)"
    and l: "3 \<le> length os" and d: "distinct (map ostart os)"
    and n: "''-1'' \<notin> set (map ostart os)"
    by (simp_all add: simpleCycle_def)
  have ne: "os \<noteq> []" using l by auto
  have p: "pathNodes os = map ostart os @ [ostart (hd os)]"
    using pathNodes_alt [OF c ne] e by simp
  have "hd (pathNodes os) = ostart (hd os)" using ne by (simp add: pathNodes_Cons)
  then show "cycleLike (pathNodes os)"
    using d l by (simp add: cycleLike_def p)
  have "ostart (hd os) \<in> set (map ostart os)" using ne by (cases os) simp_all
  then have "set (pathNodes os) = set (map ostart os)"
    unfolding p by (simp add: insert_absorb)
  then show "''-1'' \<notin> set (pathNodes os)" using n by simp
qed

lemma simpleCycle_chainGraph:
  assumes "simpleCycle ss os"
  shows "chainGraph (foldl addSegment [] ss) os"
proof -
  from assms have c: "chained os" and m: "mset (map fst os) = mset ss" and l: "3 \<le> length os"
    by (simp_all add: simpleCycle_def)
  have ne: "os \<noteq> []" using l by auto
  have s: "set (map fst os) = set ss" using m by (rule mset_eq_setD)
  have "uniqueEnds (map fst os)"
    using c simpleCycle_cycleLike(1) [OF assms] by (simp add: uniqueEnds_chain)
  with s have u: "uniqueEnds ss" by (rule uniqueEnds_set)
  from s have "set ss = fst ` set os" by simp
  then show ?thesis using u c ne by (rule chainGraph_built)
qed

lemma cycle_start_forward:
  assumes sc: "simpleCycle ss os" and x: "(s, False) \<in> set os"
  shows "\<exists>os'. simpleCycle ss os' \<and> hd os' = (s, False)"
proof -
  from x obtain k where k: "k < length os" and e: "os ! k = (s, False)"
    unfolding in_set_conv_nth by blast
  have "os \<noteq> []" using k by auto
  then have "hd (rotate k os) = os ! k" using k by (simp add: hd_rotate_conv_nth)
  then show ?thesis using simpleCycle_rotate [OF sc, of k] e by auto
qed

lemma cycle_start:
  assumes sc: "simpleCycle ss os" and x: "(s, f) \<in> set os"
  shows "\<exists>os'. simpleCycle ss os' \<and> hd os' = (s, False)"
proof (cases f)
  case False
  then show ?thesis using cycle_start_forward [OF sc] x by simp
next
  case True
  then have "flip1 (s, f) = (s, False)" by (simp add: flip1_def)
  moreover have "flip1 (s, f) \<in> set (flip os)" using x by (simp add: flip_def)
  ultimately have "(s, False) \<in> set (flip os)" by simp
  with simpleCycle_flip [OF sc] show ?thesis by (rule cycle_start_forward)
qed

text \<open>The cycle, oriented as the walk goes: along the first segment of the route.\<close>

lemma simpleCycle_result:
  assumes sc: "simpleCycle ss os"
  shows "\<exists>os'. simpleCycle ss os' \<and>
           orderedChildIdsOf (foldl addSegment [] ss) = Some (Inr (map oref os')) \<and>
           nodesOfDegree (foldl addSegment [] ss) 1 = [] \<and>
           nodesOfDegree3Plus (foldl addSegment [] ss) = []"
proof -
  let ?g = "foldl addSegment [] ss"
  from sc have m: "mset (map fst os) = mset ss" and l: "3 \<le> length os"
    by (simp_all add: simpleCycle_def)
  have "ss \<noteq> []" using m l by auto
  then obtain a b i ss' where ss: "ss = (a, b, i) # ss'" by (cases ss) auto
  have "set (map fst os) = set ss" using m by (rule mset_eq_setD)
  then have "(a, b, i) \<in> fst ` set os" by (simp add: ss)
  then obtain f where "((a, b, i), f) \<in> set os" by force
  from cycle_start [OF sc this] obtain os'
    where sc': "simpleCycle ss os'" and hd: "hd os' = ((a, b, i), False)" by blast
  let ?ws = "pathNodes os'"
  have cl: "cycleLike ?ws" and ns: "''-1'' \<notin> set ?ws"
    using simpleCycle_cycleLike [OF sc'] by simp_all
  have cg: "chainGraph ?g os'" using sc' by (rule simpleCycle_chainGraph)
  have ne: "os' \<noteq> []" using sc' by (auto simp add: simpleCycle_def)
  have w0: "?ws ! 0 = a" using pathNodes_first [OF ne] hd by simp
  have "0 < length os'" using ne by simp
  from pathNodes_Suc [OF this] have w1: "?ws ! Suc 0 = b"
    using hd ne by (simp add: hd_conv_nth)
  have "Suc 0 < length ?ws" using cycleLike_length [OF cl] by linarith
  from consecutive_distinct [OF _ this] cl have ab: "a \<noteq> b" using w0 w1 by auto
  have "headShape ?g a b" unfolding ss using ab by (rule headShape_built)
  then have hs: "headShape ?g (?ws ! 0) (?ws ! Suc 0)" using w0 w1 by simp
  have "orderedChildIdsOf ?g = Some (Inr (map oref os'))"
    using cg cl ns hs by (rule ordered_cycle)
  then show ?thesis using sc' cycle_no_dead_end [OF cg cl] by blast
qed

subsection \<open>The ordering of a simple path or cycle\<close>

lemma path_not_cycle:
  assumes "simplePath ss os"
  shows "\<not> simpleCycle ss os"
proof
  assume sc: "simpleCycle ss os"
  from assms have ne: "os \<noteq> []" and d: "distinct (pathNodes os)"
    by (simp_all add: simplePath_def)
  have l: "length (pathNodes os) = Suc (length os)" using ne by (rule length_pathNodes)
  have "0 < length os" using ne by simp
  then have z: "0 < length (pathNodes os)" and lm: "length (pathNodes os) - 1 < length (pathNodes os)"
    and neq: "0 \<noteq> length (pathNodes os) - 1"
    using l by linarith+
  have "pathNodes os ! 0 = pathNodes os ! (length (pathNodes os) - 1)"
    using sc pathNodes_first [OF ne] pathNodes_last [OF ne] by (simp add: simpleCycle_def)
  from distinct_nth_eq [OF d z lm this] neq show False by simp
qed

lemma orderedChildIds_graph:
  assumes "routeGraph r = Inr g" and "nodesOfDegree3Plus g = []" and "length (nodesOfDegree g 1) \<le> 2"
  shows "orderedChildIds r = orderedChildIdsOf g"
  using assms by (simp add: orderedChildIds_def isRoutable_graph [OF assms(1)])

text \<open>
  Where the ordering is what it should be. When the main segments are, in some
  order and orientation, a simple path or a simple cycle of at least three
  segments, and no node is called \<open>-1\<close>, the loop of \<open>orderedChildIds\<close> ends and returns
  the references of an ordering \<open>os'\<close> of the segments: as many references as there
  are segments, every segment once, each segment ending where the next starts.
  For a path the walk goes from the first to the second of the two nodes of
  degree one; for a cycle the last segment ends where the first starts.
\<close>

lemma orderedChildIds_simple:
  assumes g: "routeGraph r = Inr g"
    and sh: "simplePath (segmentsOf (mainChildren r)) os \<or>
             simpleCycle (segmentsOf (mainChildren r)) os"
  shows "\<exists>os'. orderedChildIds r = Some (Inr (map oref os')) \<and>
           length (map oref os') = length (segmentsOf (mainChildren r)) \<and>
           mset (map fst os') = mset (segmentsOf (mainChildren r)) \<and>
           chained os' \<and>
           (simplePath (segmentsOf (mainChildren r)) os \<longrightarrow>
              nodesOfDegree g 1 = [ostart (hd os'), oend (last os')]) \<and>
           (simpleCycle (segmentsOf (mainChildren r)) os \<longrightarrow>
              oend (last os') = ostart (hd os'))"
proof -
  let ?ss = "segmentsOf (mainChildren r)"
  have ge: "g = foldl addSegment [] ?ss" using g by (rule routeGraph_InrD)
  from sh show ?thesis
  proof
    assume sp: "simplePath ?ss os"
    from simplePath_result [OF sp] obtain os' where sp': "simplePath ?ss os'"
      and o: "orderedChildIdsOf g = Some (Inr (map oref os'))"
      and d1: "nodesOfDegree g 1 = [ostart (hd os'), oend (last os')]"
      and d3: "nodesOfDegree3Plus g = []"
      unfolding ge by blast
    have "orderedChildIds r = Some (Inr (map oref os'))"
      using orderedChildIds_graph [OF g d3] d1 o by simp
    moreover have m: "mset (map fst os') = mset ?ss" and "chained os'"
      using sp' by (simp_all add: simplePath_def)
    moreover have "length (map oref os') = length ?ss"
      using mset_eq_length [OF m] by simp
    moreover have "\<not> simpleCycle ?ss os" using sp by (rule path_not_cycle)
    ultimately show ?thesis using d1 by blast
  next
    assume sc: "simpleCycle ?ss os"
    from simpleCycle_result [OF sc] obtain os' where sc': "simpleCycle ?ss os'"
      and o: "orderedChildIdsOf g = Some (Inr (map oref os'))"
      and d1: "nodesOfDegree g 1 = []"
      and d3: "nodesOfDegree3Plus g = []"
      unfolding ge by blast
    have "orderedChildIds r = Some (Inr (map oref os'))"
      using orderedChildIds_graph [OF g d3] d1 o by simp
    moreover have m: "mset (map fst os') = mset ?ss" and "chained os'"
      and "oend (last os') = ostart (hd os')"
      using sc' by (simp_all add: simpleCycle_def)
    moreover have "length (map oref os') = length ?ss"
      using mset_eq_length [OF m] by simp
    moreover have "\<not> simplePath ?ss os" using sc path_not_cycle by blast
    ultimately show ?thesis by blast
  qed
qed

lemma pathRoute_segments:
  "segmentsOf (mainChildren pathRoute) = [(''A'', ''B'', ''1''), (''B'', ''C'', ''2'')]"
  by (simp add: pathRoute_def exRoute_def exWay_def mainChildren_def children_def stepResult_def)

lemma cycleRoute_segments:
  "segmentsOf (mainChildren cycleRoute) =
     [(''A'', ''B'', ''1''), (''C'', ''B'', ''2''), (''C'', ''A'', ''3'')]"
  by (simp add: cycleRoute_def exRoute_def exWay_def mainChildren_def children_def stepResult_def)

lemma cycleRoute_graph:
  "routeGraph cycleRoute =
     Inr [(''A'', [(''B'', ''1''), (''C'', ''-3'')]), (''B'', [(''A'', ''-1''), (''C'', ''-2'')]),
          (''C'', [(''B'', ''2''), (''A'', ''3'')])]"
  by (simp add: cycleRoute_def ex_defs)

lemma disconnectedRoute_graph:
  "routeGraph disconnectedRoute =
     Inr [(''A'', [(''B'', ''1'')]), (''B'', [(''A'', ''-1'')]),
          (''C'', [(''D'', ''2''), (''E'', ''-4'')]), (''D'', [(''C'', ''-2''), (''E'', ''3'')]),
          (''E'', [(''D'', ''-3''), (''C'', ''4'')])]"
  by (simp add: disconnectedRoute_def ex_defs)

lemma orderedChildIds_simple_examples:
  "simplePath (segmentsOf (mainChildren pathRoute))
     [((''A'', ''B'', ''1''), False), ((''B'', ''C'', ''2''), False)] \<and>
   (\<exists>os'. orderedChildIds pathRoute = Some (Inr (map oref os')) \<and>
      mset (map fst os') = mset (segmentsOf (mainChildren pathRoute)) \<and> chained os') \<and>
   simpleCycle (segmentsOf (mainChildren cycleRoute))
     [((''A'', ''B'', ''1''), False), ((''C'', ''B'', ''2''), True), ((''C'', ''A'', ''3''), False)] \<and>
   (\<exists>os'. orderedChildIds cycleRoute = Some (Inr (map oref os')) \<and>
      mset (map fst os') = mset (segmentsOf (mainChildren cycleRoute)) \<and> chained os' \<and>
      oend (last os') = ostart (hd os'))"
proof -
  let ?p = "[((''A'', ''B'', ''1''), False), ((''B'', ''C'', ''2''), False)]"
  let ?c = "[((''A'', ''B'', ''1''), False), ((''C'', ''B'', ''2''), True), ((''C'', ''A'', ''3''), False)]"
  have sp: "simplePath (segmentsOf (mainChildren pathRoute)) ?p"
    by (simp add: pathRoute_segments simplePath_def pathNodes_def)
  have sc: "simpleCycle (segmentsOf (mainChildren cycleRoute)) ?c"
    by (simp add: cycleRoute_segments simpleCycle_def)
  from orderedChildIds_simple [OF pathRoute_graph, of ?p] sp
  have "\<exists>os'. orderedChildIds pathRoute = Some (Inr (map oref os')) \<and>
      mset (map fst os') = mset (segmentsOf (mainChildren pathRoute)) \<and> chained os'"
    by blast
  moreover from orderedChildIds_simple [OF cycleRoute_graph, of ?c] sc
  have "\<exists>os'. orderedChildIds cycleRoute = Some (Inr (map oref os')) \<and>
      mset (map fst os') = mset (segmentsOf (mainChildren cycleRoute)) \<and> chained os' \<and>
      oend (last os') = ostart (hd os')"
    by blast
  ultimately show ?thesis using sp sc by blast
qed

lemma disconnectedRoute_segments:
  "segmentsOf (mainChildren disconnectedRoute) =
     [(''A'', ''B'', ''1''), (''C'', ''D'', ''2''), (''D'', ''E'', ''3''), (''E'', ''C'', ''4'')]"
  by (simp add: disconnectedRoute_def exRoute_def exWay_def mainChildren_def children_def
      stepResult_def)

text \<open>
  Claim C2 at the input where the code departs from it: a way from \<open>A\<close> to \<open>B\<close> beside
  a triangle \<open>C\<close>, \<open>D\<close>, \<open>E\<close>. No node has three neighbours and two nodes have one, so
  the degree test of \<open>isRoutable\<close> accepts the route, though it is no single line; no
  getter checks that the graph is connected. The walk starts at \<open>A\<close>, ends at \<open>B\<close>, and
  \<open>orderedChildIds\<close> returns one reference where the graph has four edges.
\<close>

theorem orderedChildIds_disconnected:
  "isRoutable disconnectedRoute \<and>
   orderedChildIds disconnectedRoute = Some (Inr [''1'']) \<and>
   length (segmentsOf (mainChildren disconnectedRoute)) = 4"
proof -
  have r: "isRoutable disconnectedRoute"
    by (simp add: isRoutable_graph [OF disconnectedRoute_graph] nodesOfDegree_def
        nodesOfDegree3Plus_def)
  have "orderedChildIds disconnectedRoute = Some (Inr [''1''])"
    by (simp add: orderedChildIds_def r disconnectedRoute_graph orderedChildIdsOf_def
        firstDegreeOne_def getNextNode_def map_get_def map_keys_def walk.simps)
  then show ?thesis using r by (simp add: disconnectedRoute_segments)
qed

section \<open>The assembled line\<close>

subsection \<open>Resolving the references of a chain\<close>

lemma map_of_from_entries: "map_of (map_from_entries es) = map_of (rev es)"
proof (induction es rule: rev_induct)
  case Nil
  then show ?case by (simp add: map_from_entries_def)
next
  case (snoc x xs)
  obtain k v where x: "x = (k, v)" by (cases x)
  have "map_from_entries (xs @ [x]) = map_set k v (map_from_entries xs)"
    by (simp add: map_from_entries_def x)
  then show ?case using snoc by (simp add: map_of_map_set x fun_eq_iff)
qed

lemma childrenMap_get:
  assumes "distinct (map childId (children r))" and "m \<in> set (children r)"
  shows "map_get (childrenMap r) (childId m) = Some m"
proof -
  let ?es = "map (\<lambda>child. (childId child, child)) (children r)"
  have cm: "childrenMap r = map_from_entries ?es"
    by (simp add: childrenMap_def childId_def)
  have "map fst ?es = map childId (children r)" by (simp add: comp_def)
  then have "distinct (map fst ?es)" using assms(1) by (simp only:)
  then have "distinct (rev (map fst ?es))" by (simp only: distinct_rev)
  then have "distinct (map fst (rev ?es))" by (simp only: rev_map)
  moreover have "(childId m, m) \<in> set (rev ?es)" using assms(2) by auto
  ultimately have "map_of (rev ?es) (childId m) = Some m" by (rule map_of_is_SomeI)
  then show ?thesis by (simp add: map_get_def cm map_of_from_entries)
qed

lemma filter_distinct_key:
  "distinct (map f xs) \<Longrightarrow> x \<in> set xs \<Longrightarrow> filter (\<lambda>y. f y = f x) xs = [x]"
proof (induction xs)
  case Nil
  then show ?case by simp
next
  case (Cons a xs)
  show ?case
  proof (cases "a = x")
    case True
    have "f x \<notin> f ` set xs" using Cons.prems True by simp
    then have "\<forall>y \<in> set xs. f y \<noteq> f x" by (metis imageI)
    then have "filter (\<lambda>y. f y = f x) xs = []"
      by (simp add: filter_empty_conv)
    then show ?thesis using True by simp
  next
    case False
    then have "x \<in> set xs" using Cons.prems by simp
    moreover have "f a \<noteq> f x" using Cons.prems calculation by auto
    ultimately show ?thesis using Cons by simp
  qed
qed

lemma geometryOf_child:
  assumes "distinct (map childId (children r))" and "m \<in> set (children r)"
    and "melement m = Some el"
  shows "geometryOf r (childId m) = coordinates (el_lineStringFeature el)"
  using filter_distinct_key [OF assms(1,2)] assms(3) by (simp add: geometryOf_def)

lemma childFeature_oriented:
  assumes d: "distinct (map childId (children r))"
    and nr: "\<forall>m \<in> set (children r). \<not> isReversed (childId m)"
    and x: "fst x \<in> set (segmentsOf (mainChildren r))"
  shows "\<exists>f. childFeature (childrenMap r) (oref x) = Inr f \<and> coordinates f = directedGeometry r x"
proof -
  obtain a b i rv where xe: "x = ((a, b, i), rv)" by (cases x) auto
  from x xe segment_child [of a b i r] obtain m el where m: "m \<in> set (mainChildren r)"
    and el: "melement m = Some el" and i: "i = el_id el"
    by auto
  have mc: "m \<in> set (children r)" using m by (simp add: mainChildren_def)
  have ci: "childId m = i" using el i by (simp add: childId_def)
  have get: "map_get (childrenMap r) i = Some m" using childrenMap_get [OF d mc] ci by simp
  have geo: "geometryOf r i = coordinates (el_lineStringFeature el)"
    using geometryOf_child [OF d mc el] ci by simp
  have ni: "\<not> isReversed i" using nr mc ci by auto
  show ?thesis
  proof (cases rv)
    case True
    have "isReversed (''-'' @ i)" and "absoluteId (''-'' @ i) = i"
      by (simp_all add: isReversed_def absoluteId_def)
    then show ?thesis
      using True get el geo by (simp add: xe childFeature_def reverseLineFeature_def)
  next
    case False
    then show ?thesis
      using ni get el geo by (simp add: xe childFeature_def)
  qed
qed

lemma mapResult_all:
  "\<forall>x \<in> set xs. \<exists>y. f x = Inr y \<and> c y = d x \<Longrightarrow>
     \<exists>ys. mapResult f xs = Inr ys \<and> map c ys = map d xs"
proof (induction xs)
  case Nil
  then show ?case by simp
next
  case (Cons a xs)
  then obtain y ys where "f a = Inr y" "c y = d a" "mapResult f xs = Inr ys" "map c ys = map d xs"
    by auto
  then show ?case by simp
qed

lemma mapResult_map: "mapResult f (map h xs) = mapResult (\<lambda>x. f (h x)) xs"
  by (induction xs) (simp_all split: sum.splits)

lemma joined_coordinates:
  "coordinates f @ concat (map (\<lambda>feat. drop 1 (coordinates feat)) fs) = joined (map coordinates (f # fs))"
  by (simp add: comp_def)

text \<open>
  Where the assembled line is what it should be. When the main segments are a
  simple path or a simple cycle, the children have different identifiers and no
  identifier begins with the mark of a reversed reference, \<open>lineStringFeature\<close>
  returns the geometries of the segments, in the order \<open>os'\<close> of \<open>orderedChildIds\<close> and
  each in its direction of travel (reversed when the reference is marked), joined
  with the leading coordinate of every segment after the first dropped.
\<close>

lemma lineStringFeature_simple:
  assumes g: "routeGraph r = Inr g"
    and sh: "simplePath (segmentsOf (mainChildren r)) os \<or>
             simpleCycle (segmentsOf (mainChildren r)) os"
    and d: "distinct (map childId (children r))"
    and nr: "\<forall>m \<in> set (children r). \<not> isReversed (childId m)"
  shows "\<exists>os'. orderedChildIds r = Some (Inr (map oref os')) \<and>
           mset (map fst os') = mset (segmentsOf (mainChildren r)) \<and> chained os' \<and>
           lineStringFeature r =
             Some (Inr \<lparr> properties = rproperties r,
                           coordinates = joined (map (directedGeometry r) os') \<rparr>)"
proof -
  let ?ss = "segmentsOf (mainChildren r)"
  from orderedChildIds_simple [OF g sh] obtain os' where o: "orderedChildIds r = Some (Inr (map oref os'))"
    and m: "mset (map fst os') = mset ?ss" and c: "chained os'"
    by blast
  have ro: "isRoutable r"
    using o by (auto simp add: orderedChildIds_def split: if_splits)
  have "\<forall>x \<in> set os'. fst x \<in> set ?ss"
    using m by (metis image_eqI list.set_map set_mset_mset)
  then have "\<forall>x \<in> set os'. \<exists>f. childFeature (childrenMap r) (oref x) = Inr f \<and>
      coordinates f = directedGeometry r x"
    using childFeature_oriented [OF d nr] by blast
  then have "\<exists>fs. mapResult (\<lambda>x. childFeature (childrenMap r) (oref x)) os' = Inr fs \<and>
      map coordinates fs = map (directedGeometry r) os'"
    by (rule mapResult_all)
  then obtain fs where fs: "mapResult (childFeature (childrenMap r)) (map oref os') = Inr fs"
    and co: "map coordinates fs = map (directedGeometry r) os'"
    by (auto simp add: mapResult_map)
  have "?ss \<noteq> []"
    using sh by (auto simp add: simplePath_def simpleCycle_def)
  then have "os' \<noteq> []" using m by auto
  then have "fs \<noteq> []" using co by auto
  then obtain f fs' where ff: "fs = f # fs'" by (cases fs) auto
  have "lineStringFeature r = Some (Inr \<lparr> properties = rproperties r,
      coordinates = coordinates f @ concat (map (\<lambda>feat. drop 1 (coordinates feat)) fs') \<rparr>)"
    using ro o fs ff by (simp add: lineStringFeature_def orderedFeatureCollection_def)
  moreover have "map coordinates (f # fs') = map (directedGeometry r) os'"
    using co ff by simp
  ultimately have "lineStringFeature r = Some (Inr \<lparr> properties = rproperties r,
      coordinates = joined (map (directedGeometry r) os') \<rparr>)"
    by (simp only: joined_coordinates)
  then show ?thesis using o m c by blast
qed


text \<open>
  Two ways listed against the direction of the walk: both references are marked
  as reversed and both geometries are turned round before they are joined. Two
  ways meeting head to head: the second one is turned round.
\<close>

lemma lineStringFeature_reversed_examples:
  "orderedChildIds untaggedFirstRoute = Some (Inr [''-2'', ''-1'']) \<and>
   map_option (map_sum id coordinates) (lineStringFeature untaggedFirstRoute) =
     Some (Inr [[2, 2], [1, 1], [0, 0]]) \<and>
   orderedChildIds climbRoute = Some (Inr [''1'', ''-2'']) \<and>
   map_option (map_sum id coordinates) (lineStringFeature climbRoute) =
     Some (Inr [[0, 0, 10], [1, 1, 15], [2, 2, 15], [3, 3, 12], [4, 4, 7]])"
  by code_simp

subsection \<open>The route without segments\<close>

text \<open>
  Claim C9 at the input where the code departs from it: a route without a way
  member to build the graph from, which \<open>isRoutable\<close> reports routable. The ordering
  raises a \<open>TypeError\<close> when it reads the first entry of the empty graph, so
  \<open>lineStringFeature\<close> raises it too and assembles no line; \<open>statistics\<close>, which reads the
  line of a routable route, ends the same way.
\<close>

theorem lineStringFeature_empty_route:
  "isRoutable emptyRoute \<and> lineStringFeature emptyRoute = Some (Inl TypeError) \<and>
   statistics turfLength emptyRoute = Some (Inl TypeError)"
proof -
  have "lineStringFeature emptyRoute = Some (Inl TypeError)"
    by (simp add: lineStringFeature_def orderedFeatureCollection_def emptyRoute_routable
        emptyRoute_ordered)
  then show ?thesis
    by (simp add: statistics_def elevation_def emptyRoute_routable Let_def)
qed

end
